theory Spec2Isabelle
  imports Main "HOL-Library.Char_ord" "HOL-Library.List_Lexorder"
begin

section \<open>Data model of radix.go\<close>

text \<open>
  Go strings are byte sequences: \<open>string\<close> is \<open>char list\<close> and a \<open>char\<close> is one
  byte. Bytes are compared as unsigned numbers (\<open>Char_ord\<close>), strings byte-wise
  lexicographically (\<open>List_Lexorder\<close>), as Go's \<open><\<close> on \<open>string\<close> does.

  \<open>leafNode\<close> is the struct of the same name. A \<open>node\<close> owns its \<open>leaf\<close> (a nil pointer
  is \<open>None\<close>), its \<open>prefix\<close> and its \<open>edges\<close>; an edge is the pair of its \<open>label\<close> and the
  \<open>node\<close> it points to. Every node of the Go program is referenced from exactly one
  place (the tree's \<open>root\<close> field or one edge slot), so a node is modelled as a value
  stored in that place, and a mutation through a pointer is modelled by writing the
  changed node back to the place it was read from.
\<close>

datatype 'v leafNode = LeafNode (key: string) (val: 'v)

datatype 'v node =
  Node (leaf: "'v leafNode option") (prefix: string) (edges: "(char \<times> 'v node) list")

type_synonym 'v edge = "char \<times> 'v node"

record 'v tree =
  root :: "'v node"
  tsize :: int

datatype error = ReplacingMissingEdge | IndexOutOfRange

text \<open>Sequencing of fallible steps: the first panic aborts the operation.\<close>

definition ebind :: "error + 'a \<Rightarrow> ('a \<Rightarrow> error + 'b) \<Rightarrow> error + 'b" where
  "ebind m f = (case m of Inl e \<Rightarrow> Inl e | Inr x \<Rightarrow> f x)"

section \<open>Library functions used by radix.go\<close>

text \<open>
  \<open>sort.Search n f\<close> is Go's binary search: with \<open>i, j := 0, n\<close> it halves the
  interval while \<open>i < j\<close>, moving \<open>i\<close> past \<open>h\<close> when \<open>f h\<close> is false and \<open>j\<close> down to
  \<open>h\<close> otherwise, and returns \<open>i\<close>. The midpoint \<open>int(uint(i+j) >> 1)\<close> is
  \<open>(i + j) div 2\<close> for the slice lengths that occur.
\<close>

function Search_loop :: "(nat \<Rightarrow> bool) \<Rightarrow> nat \<Rightarrow> nat \<Rightarrow> nat" where
  "Search_loop f i j =
     (if i < j then
        (let h = (i + j) div 2
         in if \<not> f h then Search_loop f (h + 1) j else Search_loop f i h)
      else i)"
  by pat_completeness auto
termination
  by (relation "measure (\<lambda>(f, i, j). j - i)") auto

definition Search :: "nat \<Rightarrow> (nat \<Rightarrow> bool) \<Rightarrow> nat" where
  "Search n f = Search_loop f 0 n"

text \<open>\<open>strings.HasPrefix s p\<close>: \<open>len(s) >= len(p) && s[:len(p)] == p\<close>.\<close>

definition HasPrefix :: "string \<Rightarrow> string \<Rightarrow> bool" where
  "HasPrefix s p \<longleftrightarrow> length p \<le> length s \<and> take (length p) s = p"

section \<open>Node operations\<close>

definition isLeaf :: "'v node \<Rightarrow> bool" where
  "isLeaf n \<longleftrightarrow> leaf n \<noteq> None"

text \<open>
  \<open>addEdge\<close> appends the edge and sorts the slice by label. \<open>sort.Sort\<close> is not
  stable, which only matters for equal labels; \<open>sort_key\<close> is the sorted
  permutation.
\<close>

definition addEdge :: "'v node \<Rightarrow> 'v edge \<Rightarrow> 'v node" where
  "addEdge n e = Node (leaf n) (prefix n) (sort_key fst (edges n @ [e]))"

text \<open>
  \<open>updateEdge\<close>, \<open>getEdge\<close> and \<open>delEdge\<close> start with the same four lines: the binary
  search for the first index whose label is at least \<open>label\<close>, and the test that
  this index is in range and carries exactly \<open>label\<close>. \<open>edgeIdx\<close> is that common
  part; \<open>None\<close> is the fall-through.
\<close>

definition edgeIdx :: "'v edge list \<Rightarrow> char \<Rightarrow> nat option" where
  "edgeIdx es label =
     (let num = length es;
          idx = Search num (\<lambda>i. fst (es ! i) \<ge> label)
      in if idx < num \<and> fst (es ! idx) = label then Some idx else None)"

definition updateEdge :: "'v node \<Rightarrow> char \<Rightarrow> 'v node \<Rightarrow> error + 'v node" where
  "updateEdge n label nd =
     (case edgeIdx (edges n) label of
        Some idx \<Rightarrow> Inr (Node (leaf n) (prefix n) ((edges n)[idx := (fst (edges n ! idx), nd)]))
      | None \<Rightarrow> Inl ReplacingMissingEdge)"

definition getEdge :: "'v node \<Rightarrow> char \<Rightarrow> 'v node option" where
  "getEdge n label =
     (case edgeIdx (edges n) label of
        Some idx \<Rightarrow> Some (snd (edges n ! idx))
      | None \<Rightarrow> None)"

definition delEdge :: "'v node \<Rightarrow> char \<Rightarrow> 'v node" where
  "delEdge n label =
     (case edgeIdx (edges n) label of
        Some idx \<Rightarrow> Node (leaf n) (prefix n) (take idx (edges n) @ drop (idx + 1) (edges n))
      | None \<Rightarrow> n)"

text \<open>
  The descents of \<open>Insert\<close>, \<open>Delete\<close> and \<open>deletePrefix\<close> read a child with
  \<open>getEdge\<close> and then change it through the pointer. \<open>setChild\<close> is the write-back
  of the changed child to the slot \<open>getEdge\<close> read it from; it is not a function of
  the Go program and cannot fail there.
\<close>

definition setChild :: "'v node \<Rightarrow> char \<Rightarrow> 'v node \<Rightarrow> 'v node" where
  "setChild n label c =
     (case edgeIdx (edges n) label of
        Some idx \<Rightarrow> Node (leaf n) (prefix n) ((edges n)[idx := (fst (edges n ! idx), c)])
      | None \<Rightarrow> n)"

text \<open>
  \<open>mergeChild\<close> reads \<open>n.edges[0]\<close>, which panics on an empty slice, and takes over
  the child's leaf and edges while concatenating the prefixes.
\<close>

definition mergeChild :: "'v node \<Rightarrow> error + 'v node" where
  "mergeChild n =
     (case edges n of
        [] \<Rightarrow> Inl IndexOutOfRange
      | e # _ \<Rightarrow> Inr (Node (leaf (snd e)) (prefix n @ prefix (snd e)) (edges (snd e))))"

text \<open>\<open>longestPrefix\<close>: the index loop over both strings, as a recursion.\<close>

fun longestPrefix :: "string \<Rightarrow> string \<Rightarrow> nat" where
  "longestPrefix (x # xs) (y # ys) = (if x \<noteq> y then 0 else Suc (longestPrefix xs ys))"
| "longestPrefix _ _ = 0"

lemma size_edge_list: "e \<in> set es \<Longrightarrow> size (snd e) < Suc (size_list (size_prod (\<lambda>x. 0) size) es)"
  by (induction es) auto

lemma size_edge_child: "e \<in> set (edges n) \<Longrightarrow> size (snd e) < size n"
  using size_edge_list [of e "edges n"] by (cases n) auto

lemma size_edges_less: "Suc (2 * size_list (size_prod (\<lambda>x. 0) size) (edges n)) < 2 * size n"
  by (cases n) simp

lemma edgeIdx_less: "edgeIdx es l = Some i \<Longrightarrow> i < length es"
  by (auto simp: edgeIdx_def Let_def split: if_splits)

lemma edgeIdx_label: "edgeIdx es l = Some i \<Longrightarrow> fst (es ! i) = l"
  by (auto simp: edgeIdx_def Let_def split: if_splits)

lemma getEdge_size: "getEdge n l = Some c \<Longrightarrow> size c < size n"
proof -
  assume a: "getEdge n l = Some c"
  then obtain i where i: "edgeIdx (edges n) l = Some i" "c = snd (edges n ! i)"
    by (auto simp: getEdge_def split: option.splits)
  then have "edges n ! i \<in> set (edges n)"
    using edgeIdx_less by (metis nth_mem)
  then show ?thesis using i size_edge_child by blast
qed


section \<open>Tree operations\<close>

definition New :: "'v tree" where
  "New = \<lparr>root = Node None [] [], tsize = 0\<rparr>"

definition Len :: "'v tree \<Rightarrow> int" where
  "Len t = tsize t"

text \<open>
  A Go result \<open>(V, bool)\<close> is an option: \<open>Some v\<close> is \<open>(v, true)\<close> and \<open>None\<close> is
  \<open>(zeroVal, false)\<close>. A result \<open>(string, V, bool)\<close> is an option of a pair.

  \<open>Insert\<close>: one call of \<open>insert_node\<close> is one iteration of the loop, at node \<open>n\<close>
  with the remaining \<open>search\<close>; \<open>s\<close> and \<open>v\<close> are the arguments of \<open>Insert\<close>. The
  result carries the returned old value, whether \<open>t.size++\<close> ran, and the node
  after the mutation. In the split, \<open>updateEdge\<close> stores the pointer to the fresh
  \<open>child\<close> in the parent's edge or panics; \<open>child\<close> is completed afterwards through
  that pointer, so the model writes the completed \<open>child\<close> to the same edge
  (\<open>setChild\<close>). \<open>n.prefix[commonPrefix]\<close> is an index into a string and panics when
  out of range.
\<close>

function insert_node :: "string \<Rightarrow> 'v \<Rightarrow> 'v node \<Rightarrow> string \<Rightarrow> error + ('v option \<times> bool \<times> 'v node)" where
  "insert_node s v n search =
     (if length search = 0 then
        (case leaf n of
           Some lf \<Rightarrow> Inr (Some (val lf), False, Node (Some (LeafNode (key lf) v)) (prefix n) (edges n))
         | None \<Rightarrow> Inr (None, True, Node (Some (LeafNode s v)) (prefix n) (edges n)))
      else
        (case getEdge n (hd search) of
           None \<Rightarrow>
             Inr (None, True, addEdge n (hd search, Node (Some (LeafNode s v)) search []))
         | Some c \<Rightarrow>
             (let commonPrefix = longestPrefix search (prefix c) in
              if commonPrefix = length (prefix c) then
                ebind (insert_node s v c (drop commonPrefix search))
                  (\<lambda>(old, grew, c'). Inr (old, grew, setChild n (hd search) c'))
              else
                ebind (updateEdge n (hd search) (Node None (take commonPrefix search) []))
                  (\<lambda>_. if commonPrefix < length (prefix c) then
                         (let child = Node None (take commonPrefix search) [];
                              child = addEdge child (prefix c ! commonPrefix,
                                        Node (leaf c) (drop commonPrefix (prefix c)) (edges c));
                              lf = LeafNode s v;
                              search' = drop commonPrefix search;
                              child = (if length search' = 0
                                       then Node (Some lf) (prefix child) (edges child)
                                       else addEdge child (hd search', Node (Some lf) search' []))
                          in Inr (None, True, setChild n (hd search) child))
                       else Inl IndexOutOfRange))))"
  by pat_completeness auto
termination
  by (relation "measure (\<lambda>(s, v, n, search). size n)") (auto dest: getEdge_size)

definition Insert :: "'v tree \<Rightarrow> string \<Rightarrow> 'v \<Rightarrow> error + ('v option \<times> 'v tree)" where
  "Insert t s v =
     ebind (insert_node s v (root t) s)
       (\<lambda>(old, grew, r). Inr (old, \<lparr>root = r, tsize = (if grew then tsize t + 1 else tsize t)\<rparr>))"

text \<open>
  \<open>Delete\<close>. The block after the label \<open>DELETE\<close> works on the found node \<open>n\<close>, on
  \<open>parent\<close> and on \<open>label\<close>. \<open>delete_child\<close> is that block for a node that has a
  parent (so \<open>n \<noteq> t.root\<close>): it returns the parent after the block.
  The leaf is cleared, then \<open>n\<close> is merged with its only child when it has exactly one
  edge, and the parent loses the edge when \<open>n\<close> has none; last, the parent itself is
  merged when it is not the root, keeps one edge and has no leaf.
  \<open>delEdge\<close> looks at the labels of the parent only, which the changes to \<open>n\<close> leave
  alone, so the model may write \<open>n\<close> back before it.
\<close>

definition delete_child :: "bool \<Rightarrow> 'v node \<Rightarrow> char \<Rightarrow> 'v node \<Rightarrow> error + 'v node" where
  "delete_child parent_is_root parent label n =
     (let n1 = Node None (prefix n) (edges n)
      in ebind (if length (edges n1) = 1 then mergeChild n1 else Inr n1)
           (\<lambda>n2.
              let parent1 = setChild parent label n2;
                  parent2 = (if length (edges n1) = 0 then delEdge parent1 label else parent1)
              in if \<not> parent_is_root \<and> length (edges parent2) = 1 \<and> \<not> isLeaf parent2
                 then mergeChild parent2 else Inr parent2))"

text \<open>
  One call of \<open>delete_desc\<close> is the second half of a loop iteration at \<open>n\<close> (the edge
  lookup and the prefix test, with a non-empty \<open>search\<close>) followed by the first half
  of the next one at the child (the test for key exhaustion). \<open>None\<close> is the
  \<open>break\<close>; otherwise the result is the removed value and \<open>n\<close> after the mutation.
\<close>

function delete_desc :: "bool \<Rightarrow> 'v node \<Rightarrow> string \<Rightarrow> error + ('v \<times> 'v node) option" where
  "delete_desc is_root n search =
     (case getEdge n (hd search) of
        None \<Rightarrow> Inr None
      | Some c \<Rightarrow>
          if HasPrefix search (prefix c) then
            (let search' = drop (length (prefix c)) search in
             if length search' = 0 then
               (case leaf c of
                  None \<Rightarrow> Inr None
                | Some lf \<Rightarrow>
                    ebind (delete_child is_root n (hd search) c) (\<lambda>p. Inr (Some (val lf, p))))
             else
               ebind (delete_desc False c search')
                 (\<lambda>r. case r of
                         None \<Rightarrow> Inr None
                       | Some (v, c') \<Rightarrow> Inr (Some (v, setChild n (hd search) c'))))
          else Inr None)"
  by pat_completeness auto
termination
  by (relation "measure (\<lambda>(r, n, search). size n)") (auto dest: getEdge_size)

definition Delete :: "'v tree \<Rightarrow> string \<Rightarrow> error + ('v option \<times> 'v tree)" where
  "Delete t s =
     (if length s = 0 then
        (case leaf (root t) of
           None \<Rightarrow> Inr (None, t)
         | Some lf \<Rightarrow>
             Inr (Some (val lf),
                  \<lparr>root = Node None (prefix (root t)) (edges (root t)), tsize = tsize t - 1\<rparr>))
      else
        ebind (delete_desc True (root t) s)
          (\<lambda>r. case r of
                  None \<Rightarrow> Inr (None, t)
                | Some (v, r') \<Rightarrow> Inr (Some v, \<lparr>root = r', tsize = tsize t - 1\<rparr>)))"

text \<open>
  \<open>recursiveWalk\<close>. A \<open>WalkFn\<close> is a closure: it may read and change captured
  variables. The model passes that captured state \<open>'s\<close> through the callback, which
  returns whether to stop and the new state.
\<close>

type_synonym ('v, 's) WalkFn = "'s \<Rightarrow> string \<Rightarrow> 'v \<Rightarrow> bool \<times> 's"

function recursiveWalk :: "'v node \<Rightarrow> ('v, 's) WalkFn \<Rightarrow> 's \<Rightarrow> bool \<times> 's"
  and walkEdges :: "'v edge list \<Rightarrow> ('v, 's) WalkFn \<Rightarrow> 's \<Rightarrow> bool \<times> 's" where
  "recursiveWalk n fn st =
     (case leaf n of
        Some lf \<Rightarrow>
          (case fn st (key lf) (val lf) of
             (stop, st1) \<Rightarrow> if stop then (True, st1) else walkEdges (edges n) fn st1)
      | None \<Rightarrow> walkEdges (edges n) fn st)"
| "walkEdges [] fn st = (False, st)"
| "walkEdges (e # es) fn st =
     (case recursiveWalk (snd e) fn st of
        (stop, st1) \<Rightarrow> if stop then (True, st1) else walkEdges es fn st1)"
  by pat_completeness auto
termination
  by (relation "measure (\<lambda>x. case x of
         Inl (n, fn, st) \<Rightarrow> 2 * size n
       | Inr (es, fn, st) \<Rightarrow> 2 * size_list (size_prod (\<lambda>x. 0) size) es + 1)")
     (auto simp: size_edges_less)

text \<open>
  \<open>deletePrefix\<close>. \<open>discard_child\<close> is the branch for an exhausted prefix at a node
  \<open>n\<close> that has a parent: the leaves under \<open>n\<close> are counted by a walk whose callback
  increments the counter and never stops, \<open>n\<close> loses its leaf and its edges, and the
  parent is merged when it is not the root, has one edge and no leaf. It returns
  the count and the parent.
\<close>

definition countFn :: "('v, nat) WalkFn" where
  "countFn subTreeSize s v = (False, subTreeSize + 1)"

definition discard_child :: "bool \<Rightarrow> 'v node \<Rightarrow> char \<Rightarrow> 'v node \<Rightarrow> error + (nat \<times> 'v node)" where
  "discard_child parent_is_root parent label n =
     (let subTreeSize = snd (recursiveWalk n countFn 0);
          parent1 = setChild parent label (Node None (prefix n) [])
      in ebind (if \<not> parent_is_root \<and> length (edges parent1) = 1 \<and> \<not> isLeaf parent1
                then mergeChild parent1 else Inr parent1)
           (\<lambda>parent2. Inr (subTreeSize, parent2)))"

text \<open>
  One call of \<open>deletePrefix_desc\<close> is the call \<open>deletePrefix(parent, n, prefix)\<close> with
  a non-empty \<open>prefix\<close> (the edge lookup, the two prefix tests and the consumption of
  the prefix) followed by the exhaustion test of the recursive call at the child.
\<close>

function deletePrefix_desc :: "bool \<Rightarrow> 'v node \<Rightarrow> string \<Rightarrow> error + (nat \<times> 'v node)" where
  "deletePrefix_desc is_root n pfx =
     (case getEdge n (hd pfx) of
        None \<Rightarrow> Inr (0, n)
      | Some child \<Rightarrow>
          if \<not> HasPrefix (prefix child) pfx \<and> \<not> HasPrefix pfx (prefix child) then Inr (0, n)
          else
            (let pfx' = (if length (prefix child) > length pfx
                         then drop (length pfx) pfx
                         else drop (length (prefix child)) pfx)
             in if length pfx' = 0 then discard_child is_root n (hd pfx) child
                else ebind (deletePrefix_desc False child pfx')
                       (\<lambda>(cnt, child'). Inr (cnt, setChild n (hd pfx) child'))))"
  by pat_completeness auto
termination
  by (relation "measure (\<lambda>(r, n, pfx). size n)") (auto dest: getEdge_size)

definition DeletePrefix :: "'v tree \<Rightarrow> string \<Rightarrow> error + (int \<times> 'v tree)" where
  "DeletePrefix t s =
     (if length s = 0 then
        (let subTreeSize = snd (recursiveWalk (root t) countFn 0)
         in Inr (int subTreeSize,
                 \<lparr>root = Node None (prefix (root t)) [], tsize = tsize t - int subTreeSize\<rparr>))
      else
        ebind (deletePrefix_desc True (root t) s)
          (\<lambda>(cnt, r). Inr (int cnt, \<lparr>root = r, tsize = tsize t - int cnt\<rparr>)))"

section \<open>Queries\<close>

function get_node :: "'v node \<Rightarrow> string \<Rightarrow> 'v option" where
  "get_node n search =
     (if length search = 0 then
        (case leaf n of Some lf \<Rightarrow> Some (val lf) | None \<Rightarrow> None)
      else
        (case getEdge n (hd search) of
           None \<Rightarrow> None
         | Some c \<Rightarrow>
             if HasPrefix search (prefix c)
             then get_node c (drop (length (prefix c)) search)
             else None))"
  by pat_completeness auto
termination
  by (relation "measure (\<lambda>(n, search). size n)") (auto dest: getEdge_size)

definition Get :: "'v tree \<Rightarrow> string \<Rightarrow> 'v option" where
  "Get t s = get_node (root t) s"

function longestPrefix_node :: "'v leafNode option \<Rightarrow> 'v node \<Rightarrow> string \<Rightarrow> 'v leafNode option" where
  "longestPrefix_node lastLeaf n search =
     (let lastLeaf = (if isLeaf n then leaf n else lastLeaf) in
      if length search = 0 then lastLeaf
      else
        (case getEdge n (hd search) of
           None \<Rightarrow> lastLeaf
         | Some c \<Rightarrow>
             if HasPrefix search (prefix c)
             then longestPrefix_node lastLeaf c (drop (length (prefix c)) search)
             else lastLeaf))"
  by pat_completeness auto
termination
  by (relation "measure (\<lambda>(l, n, search). size n)") (auto dest: getEdge_size)

definition LongestPrefix :: "'v tree \<Rightarrow> string \<Rightarrow> (string \<times> 'v) option" where
  "LongestPrefix t s =
     (case longestPrefix_node None (root t) s of
        Some lastLeaf \<Rightarrow> Some (key lastLeaf, val lastLeaf)
      | None \<Rightarrow> None)"

function minimum_node :: "'v node \<Rightarrow> (string \<times> 'v) option" where
  "minimum_node n =
     (case leaf n of
        Some lf \<Rightarrow> Some (key lf, val lf)
      | None \<Rightarrow>
          if length (edges n) > 0 then minimum_node (snd (edges n ! 0)) else None)"
  by pat_completeness auto
termination
  by (relation "measure size") (auto intro: size_edge_child)

definition Minimum :: "'v tree \<Rightarrow> (string \<times> 'v) option" where
  "Minimum t = minimum_node (root t)"

function maximum_node :: "'v node \<Rightarrow> (string \<times> 'v) option" where
  "maximum_node n =
     (let num = length (edges n) in
      if num > 0 then maximum_node (snd (edges n ! (num - 1)))
      else (case leaf n of
              Some lf \<Rightarrow> Some (key lf, val lf)
            | None \<Rightarrow> None))"
  by pat_completeness auto
termination
  by (relation "measure size") (auto intro: size_edge_child)

definition Maximum :: "'v tree \<Rightarrow> (string \<times> 'v) option" where
  "Maximum t = maximum_node (root t)"

definition Walk :: "'v tree \<Rightarrow> ('v, 's) WalkFn \<Rightarrow> 's \<Rightarrow> 's" where
  "Walk t fn st = snd (recursiveWalk (root t) fn st)"

function walkPrefix_node :: "'v node \<Rightarrow> string \<Rightarrow> ('v, 's) WalkFn \<Rightarrow> 's \<Rightarrow> 's" where
  "walkPrefix_node n search fn st =
     (if length search = 0 then snd (recursiveWalk n fn st)
      else
        (case getEdge n (hd search) of
           None \<Rightarrow> st
         | Some c \<Rightarrow>
             if HasPrefix search (prefix c)
             then walkPrefix_node c (drop (length (prefix c)) search) fn st
             else if HasPrefix (prefix c) search then snd (recursiveWalk c fn st)
             else st))"
  by pat_completeness auto
termination
  by (relation "measure (\<lambda>(n, search, fn, st). size n)") (auto dest: getEdge_size)

definition WalkPrefix :: "'v tree \<Rightarrow> string \<Rightarrow> ('v, 's) WalkFn \<Rightarrow> 's \<Rightarrow> 's" where
  "WalkPrefix t pfx fn st = walkPrefix_node (root t) pfx fn st"

text \<open>
  The callback that records each call (key and value, in call order) and never
  asks to stop.
\<close>

definition recordFn :: "('v, (string \<times> 'v) list) WalkFn" where
  "recordFn calls s v = (False, calls @ [(s, v)])"

section \<open>Sequences of public operations\<close>

datatype 'v op = OpInsert string 'v | OpDelete string | OpDeletePrefix string

fun apply_op :: "'v tree \<Rightarrow> 'v op \<Rightarrow> error + 'v tree" where
  "apply_op t (OpInsert s v) = ebind (Insert t s v) (\<lambda>(old, t'). Inr t')"
| "apply_op t (OpDelete s) = ebind (Delete t s) (\<lambda>(old, t'). Inr t')"
| "apply_op t (OpDeletePrefix s) = ebind (DeletePrefix t s) (\<lambda>(cnt, t'). Inr t')"

fun run :: "'v tree \<Rightarrow> 'v op list \<Rightarrow> error + 'v tree" where
  "run t [] = Inr t"
| "run t (x # xs) = ebind (apply_op t x) (\<lambda>t'. run t' xs)"

section \<open>Abstraction and invariant\<close>

text \<open>
  \<open>entries n\<close> lists the key and value of every leaf in the subtree of \<open>n\<close>, the
  node's own leaf first and then the subtrees of its edges in slice order.

  \<open>node_inv q n\<close> is the invariant of the subtree of \<open>n\<close>, where \<open>q\<close> is the
  concatenation of the prefixes from the root down to the parent of \<open>n\<close>: the key
  of a leaf is the concatenation of the prefixes down to its node, the labels of
  the edges of a node ascend strictly, and the label of an edge is the first byte
  of the non-empty prefix of its node.
\<close>

function entries :: "'v node \<Rightarrow> (string \<times> 'v) list" where
  "entries n = (case leaf n of None \<Rightarrow> [] | Some lf \<Rightarrow> [(key lf, val lf)])
               @ concat (map (\<lambda>e. entries (snd e)) (edges n))"
  by pat_completeness auto
termination
  by (relation "measure size") (auto intro: size_edge_child)

function node_inv :: "string \<Rightarrow> 'v node \<Rightarrow> bool" where
  "node_inv q n \<longleftrightarrow>
     (case leaf n of None \<Rightarrow> True | Some lf \<Rightarrow> key lf = q @ prefix n)
     \<and> sorted_wrt (<) (map fst (edges n))
     \<and> (\<forall>e \<in> set (edges n). prefix (snd e) \<noteq> [] \<and> hd (prefix (snd e)) = fst e
                               \<and> node_inv (q @ prefix n) (snd e))"
  by pat_completeness auto
termination
  by (relation "measure (\<lambda>(q, n). size n)") (auto intro: size_edge_child)

text \<open>
  The invariant of a tree: the invariant of the root, whose prefix is empty, and a
  \<open>size\<close> field that counts the leaves.
\<close>

definition tree_inv :: "'v tree \<Rightarrow> bool" where
  "tree_inv t \<longleftrightarrow> node_inv [] (root t) \<and> prefix (root t) = []
                  \<and> tsize t = int (length (entries (root t)))"

text \<open>
  \<open>compact n\<close>: every node below \<open>n\<close> holds a leaf or has at least two edges. This
  is the compression that \<open>Insert\<close> and \<open>Delete\<close> maintain with the split and the
  merges.
\<close>

function compact :: "'v node \<Rightarrow> bool" where
  "compact n \<longleftrightarrow>
     (\<forall>e \<in> set (edges n). (isLeaf (snd e) \<or> 2 \<le> length (edges (snd e))) \<and> compact (snd e))"
  by pat_completeness auto
termination
  by (relation "measure size") (auto intro: size_edge_child)

text \<open>The operations other than \<open>DeletePrefix\<close>.\<close>

fun no_DeletePrefix :: "'v op \<Rightarrow> bool" where
  "no_DeletePrefix (OpDeletePrefix p) = False"
| "no_DeletePrefix _ = True"

text \<open>
  The keys a history of calls leaves present, as the specification words it: a
  key is present once inserted, with the value of its latest \<open>Insert\<close>, until a
  \<open>Delete\<close> of that key or a \<open>DeletePrefix\<close> of one of its prefixes removes it. This
  is written from the specification, independently of the tree, to be compared
  with what the tree answers.
\<close>

fun spec_present_after :: "(string \<rightharpoonup> 'v) \<Rightarrow> 'v op \<Rightarrow> (string \<rightharpoonup> 'v)" where
  "spec_present_after m (OpInsert s v) = m(s \<mapsto> v)"
| "spec_present_after m (OpDelete s) = m(s := None)"
| "spec_present_after m (OpDeletePrefix p) = (\<lambda>k. if HasPrefix k p then None else m k)"

definition spec_present :: "'v op list \<Rightarrow> (string \<rightharpoonup> 'v)" where
  "spec_present ops = foldl spec_present_after Map.empty ops"

section \<open>No operation panics\<close>

text \<open>
  The recursive equations are unfolded by hand (\<open>subst\<close>) in the proofs below.
\<close>

declare insert_node.simps [simp del] delete_desc.simps [simp del] deletePrefix_desc.simps [simp del]
  get_node.simps [simp del] longestPrefix_node.simps [simp del] minimum_node.simps [simp del]
  maximum_node.simps [simp del] walkPrefix_node.simps [simp del] Search_loop.simps [simp del]

lemma longestPrefix_le2: "longestPrefix a b \<le> length b"
  by (induction a b rule: longestPrefix.induct) auto

lemma longestPrefix_le1: "longestPrefix a b \<le> length a"
  by (induction a b rule: longestPrefix.induct) auto

lemma getEdge_updateEdge:
  "getEdge n l = Some c \<Longrightarrow> updateEdge n l child \<noteq> Inl e"
  by (auto simp: getEdge_def updateEdge_def split: option.splits)

lemma ebind_eq_Inl [simp]: "ebind m f = Inl e \<longleftrightarrow> m = Inl e \<or> (\<exists>x. m = Inr x \<and> f x = Inl e)"
  by (cases m) (auto simp: ebind_def)

lemma ebind_eq_Inr [simp]: "ebind m f = Inr y \<longleftrightarrow> (\<exists>x. m = Inr x \<and> f x = Inr y)"
  by (cases m) (auto simp: ebind_def)

lemma insert_node_total: "insert_node s v n search \<noteq> Inl e"
proof (induction s v n search rule: insert_node.induct)
  case (1 s v n search)
  show ?case
  proof (cases "length search = 0")
    case True
    then show ?thesis by (subst insert_node.simps) (simp split: option.splits)
  next
    case ne: False
    show ?thesis
    proof (cases "getEdge n (hd search)")
      case None
      then show ?thesis using ne by (subst insert_node.simps) simp
    next
      case (Some c)
      let ?cp = "longestPrefix search (prefix c)"
      show ?thesis
      proof (cases "?cp = length (prefix c)")
        case True
        from "1.IH"[OF ne Some refl True]
        show ?thesis using ne Some True
          by (subst insert_node.simps) (auto )
      next
        case False
        then have lt: "?cp < length (prefix c)"
          using longestPrefix_le2[of search "prefix c"] by simp
        show ?thesis using ne Some False lt getEdge_updateEdge[OF Some]
          by (subst insert_node.simps) (auto simp: Let_def )
      qed
    qed
  qed
qed

lemma mergeChild_total: "length (edges n) = 1 \<Longrightarrow> mergeChild n \<noteq> Inl e"
  by (cases "edges n") (auto simp: mergeChild_def)

lemma delete_child_total: "delete_child r p l n \<noteq> Inl e"
  unfolding delete_child_def Let_def
  by (auto simp: mergeChild_total)

lemma delete_desc_total: "delete_desc r n search \<noteq> Inl e"
proof (induction r n search rule: delete_desc.induct)
  case (1 r n search)
  show ?case
    apply (subst delete_desc.simps)
    using 1 by (auto simp: Let_def delete_child_total  split: option.splits)
qed

lemma discard_child_total: "discard_child r p l n \<noteq> Inl e"
  unfolding discard_child_def Let_def
  by (auto simp: mergeChild_total)

lemma deletePrefix_desc_total: "deletePrefix_desc r n pfx \<noteq> Inl e"
proof (induction r n pfx rule: deletePrefix_desc.induct)
  case (1 r n pfx)
  show ?case
    apply (subst deletePrefix_desc.simps)
    using 1 by (auto simp: Let_def discard_child_total  split: option.splits)
qed

lemma Insert_total: "Insert t s v \<noteq> Inl e"
  unfolding Insert_def by (auto  simp: insert_node_total)

lemma Delete_total: "Delete t s \<noteq> Inl e"
  unfolding Delete_def by (auto  simp: delete_desc_total split: option.splits)

lemma DeletePrefix_total: "DeletePrefix t s \<noteq> Inl e"
  unfolding DeletePrefix_def by (auto  simp: deletePrefix_desc_total Let_def split: option.splits)

lemma apply_op_total: "apply_op t x \<noteq> Inl e"
  by (cases x) (auto  simp: Insert_total Delete_total DeletePrefix_total)

lemma run_total: "run t ops \<noteq> Inl e"
  by (induction ops arbitrary: t) (auto  simp: apply_op_total)


section \<open>Edge lookup\<close>

lemma Search_loop_spec:
  "(\<forall>a b. a \<le> b \<and> b < n \<and> f a \<longrightarrow> f b) \<Longrightarrow> i \<le> j \<Longrightarrow> j \<le> n \<Longrightarrow> (\<forall>k<i. \<not> f k)
     \<Longrightarrow> (\<forall>k. j \<le> k \<and> k < n \<longrightarrow> f k)
     \<Longrightarrow> Search_loop f i j \<le> n
         \<and> (\<forall>k<Search_loop f i j. \<not> f k) \<and> (\<forall>k. Search_loop f i j \<le> k \<and> k < n \<longrightarrow> f k)"
proof (induction f i j rule: Search_loop.induct)
  case (1 f i j)
  show ?case
  proof (cases "i < j")
    case False
    then have "Search_loop f i j = i" by (subst Search_loop.simps) simp
    then show ?thesis using 1(3-) False by auto
  next
    case True
    let ?h = "(i + j) div 2"
    have h: "i \<le> ?h" "?h < j" using True by auto
    show ?thesis
    proof (cases "f ?h")
      case fh: True
      have eq: "Search_loop f i j = Search_loop f i ?h"
        using True fh by (subst Search_loop.simps) (simp add: Let_def)
      have "\<forall>k. ?h \<le> k \<and> k < n \<longrightarrow> f k"
        using fh "1.prems"(1) by blast
      with "1.IH"(2)[OF True refl _ "1.prems"(1)] h "1.prems" fh
      show ?thesis unfolding eq by auto
    next
      case fh: False
      have eq: "Search_loop f i j = Search_loop f (?h + 1) j"
        using True fh by (subst Search_loop.simps) (simp add: Let_def)
      have "\<forall>k<?h + 1. \<not> f k"
      proof (intro allI impI)
        fix k assume "k < ?h + 1"
        then have "k \<le> ?h" by simp
        moreover have "?h < n" using h "1.prems"(3) by simp
        ultimately show "\<not> f k" using fh "1.prems"(1) by blast
      qed
      with "1.IH"(1)[OF True refl _ "1.prems"(1)] h "1.prems" fh
      show ?thesis unfolding eq by auto
    qed
  qed
qed

lemma Search_first:
  assumes "\<forall>a b. a \<le> b \<and> b < n \<and> f a \<longrightarrow> f b"
  shows "Search n f \<le> n \<and> (\<forall>k<Search n f. \<not> f k) \<and> (\<forall>k. Search n f \<le> k \<and> k < n \<longrightarrow> f k)"
  unfolding Search_def by (rule Search_loop_spec[OF assms]) auto

lemma edgeIdx_sorted_None:
  assumes "sorted_wrt (<) (map fst es)" "edgeIdx es l = None"
  shows "l \<notin> fst ` set es"
proof
  assume "l \<in> fst ` set es"
  then obtain e where "e \<in> set es" "fst e = l" by auto
  then obtain j where j: "j < length es" "fst (es ! j) = l"
    by (auto simp: in_set_conv_nth)
  let ?f = "\<lambda>i. l \<le> fst (es ! i)"
  have nth: "\<forall>i j. i < j \<longrightarrow> j < length (map fst es) \<longrightarrow> map fst es ! i < map fst es ! j"
    using assms(1) by (simp only: sorted_wrt_iff_nth_less)
  have le: "fst (es ! a) \<le> fst (es ! b)" if "a \<le> b" "b < length es" for a b
  proof (cases "a = b")
    case True then show ?thesis by simp
  next
    case False
    then have "map fst es ! a < map fst es ! b" using nth that by simp
    then show ?thesis using that by simp
  qed
  have mono: "\<forall>a b. a \<le> b \<and> b < length es \<and> ?f a \<longrightarrow> ?f b"
  proof (intro allI impI)
    fix a b assume ab: "a \<le> b \<and> b < length es \<and> l \<le> fst (es ! a)"
    then have "fst (es ! a) \<le> fst (es ! b)" using le by blast
    then show "l \<le> fst (es ! b)" using ab by (rule_tac order_trans[of _ "fst (es ! a)"]) auto
  qed
  note S = Search_first[OF mono]
  let ?r = "Search (length es) ?f"
  have "\<not> j < ?r"
  proof
    assume "j < ?r"
    then have "\<not> l \<le> fst (es ! j)" using S by blast
    then show False using j by simp
  qed
  then have rj: "?r \<le> j" by simp
  then have rn: "?r < length es" using j by simp
  have "l \<le> fst (es ! ?r)" using S rn by blast
  moreover have "fst (es ! ?r) \<le> l"
    using le[OF rj j(1)] j by simp
  ultimately have "fst (es ! ?r) = l" by simp
  then show False using assms(2) rn by (simp add: edgeIdx_def Let_def)
qed

lemma edgeIdx_split:
  assumes "edgeIdx es l = Some i"
  shows "es = take i es @ (l, snd (es ! i)) # drop (Suc i) es"
proof -
  have b: "es = take i es @ es ! i # drop (Suc i) es"
    using edgeIdx_less[OF assms] by (rule id_take_nth_drop)
  show ?thesis
    by (rule trans[OF b]) (simp add: prod_eq_iff edgeIdx_label[OF assms])
qed


lemma getEdge_split:
  assumes "getEdge n l = Some c"
  shows "\<exists>xs ys. edges n = xs @ (l, c) # ys
     \<and> (\<forall>c'. setChild n l c' = Node (leaf n) (prefix n) (xs @ (l, c') # ys))
     \<and> (\<forall>c'. updateEdge n l c' = Inr (Node (leaf n) (prefix n) (xs @ (l, c') # ys)))
     \<and> delEdge n l = Node (leaf n) (prefix n) (xs @ ys)"
proof -
  from assms obtain i where i: "edgeIdx (edges n) l = Some i" and c: "c = snd (edges n ! i)"
    by (auto simp: getEdge_def split: option.splits)
  let ?xs = "take i (edges n)" and ?ys = "drop (Suc i) (edges n)"
  have len: "i < length (edges n)" by (rule edgeIdx_less[OF i])
  have lab: "fst (edges n ! i) = l" by (rule edgeIdx_label[OF i])
  have 1: "edges n = ?xs @ (l, c) # ?ys" using edgeIdx_split[OF i] c by simp
  have 2: "(edges n)[i := (l, c')] = ?xs @ (l, c') # ?ys" for c'
    using len by (simp add: upd_conv_take_nth_drop)
  show ?thesis
    apply (rule exI[of _ ?xs], rule exI[of _ ?ys])
    using 1 2 by (simp add: setChild_def updateEdge_def delEdge_def i lab)
qed

lemma getEdge_None_sorted:
  "sorted_wrt (<) (map fst (edges n)) \<Longrightarrow> getEdge n l = None \<Longrightarrow> l \<notin> fst ` set (edges n)"
  by (rule edgeIdx_sorted_None) (auto simp: getEdge_def split: option.splits)

section \<open>Keys of a subtree\<close>

declare entries.simps [simp del] node_inv.simps [simp del]

lemma entries_Node [simp]:
  "entries (Node lf pre es) = (case lf of None \<Rightarrow> [] | Some lf \<Rightarrow> [(key lf, val lf)])
               @ concat (map (\<lambda>e. entries (snd e)) es)"
  by (subst entries.simps) simp

lemma node_inv_Node [simp]:
  "node_inv q (Node lf pre es) \<longleftrightarrow>
     (case lf of None \<Rightarrow> True | Some lf \<Rightarrow> key lf = q @ pre)
     \<and> sorted_wrt (<) (map fst es)
     \<and> (\<forall>e \<in> set es. prefix (snd e) \<noteq> [] \<and> hd (prefix (snd e)) = fst e
                               \<and> node_inv (q @ pre) (snd e))"
  by (subst node_inv.simps) (simp split: option.splits)

lemma node_induct [case_names Node]:
  assumes "\<And>lf pre es. (\<And>e. e \<in> set es \<Longrightarrow> P (snd e)) \<Longrightarrow> P (Node lf pre es)"
  shows "P n"
proof (induction n rule: measure_induct_rule[of size])
  case (less n)
  show ?case
  proof (cases n)
    case (Node lf pre es)
    show ?thesis unfolding Node
    proof (rule assms)
      fix e assume "e \<in> set es"
      then have "size (snd e) < size n" using size_edge_child[of e n] Node by simp
      then show "P (snd e)" by (rule less)
    qed
  qed
qed

lemma append_less_append [simp]: "p @ a < p @ b \<longleftrightarrow> a < (b::string)"
  by (induction p) auto

lemma less_append_nonempty: "r \<noteq> [] \<Longrightarrow> p < p @ (r::string)"
  using append_less_append[of p "[]" r] by (cases r) auto

lemma node_inv_keys:
  "node_inv q n \<Longrightarrow> (k, v) \<in> set (entries n) \<Longrightarrow> \<exists>r. k = q @ prefix n @ r"
proof (induction n arbitrary: q rule: node_induct)
  case (Node lf pre es)
  from Node.prems(2) consider (leaf) l where "lf = Some l" "k = key l"
    | (child) e where "e \<in> set es" "(k, v) \<in> set (entries (snd e))"
    by (auto split: option.splits)
  then show ?case
  proof cases
    case leaf
    then show ?thesis using Node.prems(1) by simp
  next
    case child
    then have "node_inv (q @ pre) (snd e)" using Node.prems(1) by simp
    from Node.IH[OF child(1) this child(2)] show ?thesis by auto
  qed
qed

lemma node_inv_child_keys:
  assumes "node_inv q n" "e \<in> set (edges n)" "(k, v) \<in> set (entries (snd e))"
  shows "\<exists>r. k = q @ prefix n @ fst e # r"
proof -
  from assms(1,2) have c: "node_inv (q @ prefix n) (snd e)" "prefix (snd e) \<noteq> []"
    "hd (prefix (snd e)) = fst e" by (cases n; simp)+
  from node_inv_keys[OF c(1) assms(3)] obtain r where "k = (q @ prefix n) @ prefix (snd e) @ r"
    by blast
  moreover have "prefix (snd e) = fst e # tl (prefix (snd e))" using c(2,3) by (cases "prefix (snd e)") auto
  ultimately have "k = q @ prefix n @ fst e # (tl (prefix (snd e)) @ r)" by (metis append.assoc append_Cons)
  then show ?thesis by blast
qed

lemma sorted_concat_blocks:
  "sorted_wrt (<) (map fst es) \<Longrightarrow>
   (\<forall>e\<in>set es. sorted_wrt (<) (map fst (f e)) \<and> (\<forall>x \<in> set (f e). \<exists>r. fst x = P @ fst e # r)) \<Longrightarrow>
   sorted_wrt (<) (map fst (concat (map f es)) :: string list)"
proof (induction es)
  case Nil
  then show ?case by simp
next
  case (Cons e es)
  have "fst x < fst y" if "x \<in> set (f e)" "e' \<in> set es" "y \<in> set (f e')" for x y e'
  proof -
    have "\<forall>x\<in>set (f e). \<exists>r. fst x = P @ fst e # r" using Cons.prems(2) by simp
    from bspec[OF this that(1)] obtain r where r: "fst x = P @ fst e # r" ..
    have "\<forall>x\<in>set (f e'). \<exists>r. fst x = P @ fst e' # r" using Cons.prems(2) that(2) by simp
    from bspec[OF this that(3)] obtain r' where r': "fst y = P @ fst e' # r'" ..
    have "fst e < fst e'" using Cons.prems(1) that(2) by auto
    then show ?thesis unfolding r r' by simp
  qed
  then show ?case using Cons by (auto simp: sorted_wrt_append)
qed

lemma node_inv_sorted: "node_inv q n \<Longrightarrow> sorted_wrt (<) (map fst (entries n))"
proof (induction n arbitrary: q rule: node_induct)
  case (Node lf pre es)
  let ?n = "Node lf pre es"
  have blocks: "sorted_wrt (<) (map fst (concat (map (\<lambda>e. entries (snd e)) es)))"
  proof (rule sorted_concat_blocks[where P = "q @ pre"])
    show "sorted_wrt (<) (map fst es)" using Node.prems by simp
    show "\<forall>e\<in>set es. sorted_wrt (<) (map fst (entries (snd e))) \<and>
            (\<forall>x\<in>set (entries (snd e)). \<exists>r. fst x = (q @ pre) @ fst e # r)"
    proof (intro ballI conjI)
      fix e assume e: "e \<in> set es"
      then show "sorted_wrt (<) (map fst (entries (snd e)))"
        using Node.IH[OF e, of "q @ pre"] Node.prems by simp
      fix x assume "x \<in> set (entries (snd e))"
      then have "(fst x, snd x) \<in> set (entries (snd e))" by simp
      from node_inv_child_keys[OF Node.prems _ this, of ] e
      show "\<exists>r. fst x = (q @ pre) @ fst e # r" by simp
    qed
  qed
  show ?case
  proof (cases lf)
    case None
    then show ?thesis using blocks by simp
  next
    case (Some l)
    have "key l < fst y" if "y \<in> set (entries (snd e))" "e \<in> set es" for y e
    proof -
      have "(fst y, snd y) \<in> set (entries (snd e))" using that by simp
      from node_inv_child_keys[OF Node.prems _ this] that(2)
      obtain r where "fst y = (q @ pre) @ (fst e # r)" by auto
      moreover have "key l = q @ pre" using Node.prems Some by simp
      ultimately show ?thesis using less_append_nonempty[of "fst e # r" "q @ pre"] by simp
    qed
    then show ?thesis using blocks Some by auto
  qed
qed

lemma node_inv_distinct: "node_inv q n \<Longrightarrow> distinct (map fst (entries n))"
  using node_inv_sorted[of q n] strict_sorted_iff by blast

section \<open>Walks and lookups\<close>

lemma HasPrefix_iff: "HasPrefix s p \<longleftrightarrow> (\<exists>r. s = p @ r)"
proof
  assume "HasPrefix s p"
  then have "s = p @ drop (length p) s"
    unfolding HasPrefix_def by (metis append_take_drop_id)
  then show "\<exists>r. s = p @ r" ..
next
  assume "\<exists>r. s = p @ r"
  then show "HasPrefix s p" by (auto simp: HasPrefix_def)
qed

lemma HasPrefix_drop: "HasPrefix s p \<Longrightarrow> p @ drop (length p) s = s"
  unfolding HasPrefix_def by (metis append_take_drop_id)

declare recursiveWalk.simps [simp del]

lemma recursiveWalk_record_aux:
  "fn = recordFn \<Longrightarrow> recursiveWalk n fn acc = (False, acc @ entries n)"
  "fn = recordFn \<Longrightarrow> walkEdges es fn acc = (False, acc @ concat (map (\<lambda>e. entries (snd e)) es))"
proof (induction n fn acc and es fn acc rule: recursiveWalk_walkEdges.induct)
  case (1 n fn st)
  show ?case
  proof (cases "leaf n")
    case None
    from "1.IH"(1)[OF None "1.prems"] None show ?thesis
      by (subst recursiveWalk.simps, subst entries.simps) simp
  next
    case (Some lf)
    have f: "fn st (key lf) (val lf) = (False, st @ [(key lf, val lf)])"
      using "1.prems" by (simp add: recordFn_def)
    from "1.IH"(2)[OF Some f[symmetric] _ "1.prems"] Some f show ?thesis
      by (subst recursiveWalk.simps, subst entries.simps) simp
  qed
next
  case (2 fn st)
  then show ?case by simp
next
  case (3 e es fn st)
  have a: "recursiveWalk (snd e) fn st = (False, st @ entries (snd e))"
    using 3 by simp
  from "3.IH"(2)[OF a[symmetric] _ "3.prems"] a show ?case by simp
qed

lemma recursiveWalk_record: "recursiveWalk n recordFn acc = (False, acc @ entries n)"
  by (rule recursiveWalk_record_aux) simp

lemma recursiveWalk_count_aux:
  "fn = countFn \<Longrightarrow> recursiveWalk n fn c = (False, c + length (entries n))"
  "fn = countFn \<Longrightarrow> walkEdges es fn c = (False, c + length (concat (map (\<lambda>e. entries (snd e)) es)))"
proof (induction n fn c and es fn c rule: recursiveWalk_walkEdges.induct)
  case (1 n fn st)
  show ?case
  proof (cases "leaf n")
    case None
    from "1.IH"(1)[OF None "1.prems"] None show ?thesis
      by (subst recursiveWalk.simps, subst entries.simps) simp
  next
    case (Some lf)
    have f: "fn st (key lf) (val lf) = (False, st + 1)"
      using "1.prems" by (simp add: countFn_def)
    from "1.IH"(2)[OF Some f[symmetric] _ "1.prems"] Some f show ?thesis
      by (subst recursiveWalk.simps, subst entries.simps) simp
  qed
next
  case (2 fn st)
  then show ?case by simp
next
  case (3 e es fn st)
  have a: "recursiveWalk (snd e) fn st = (False, st + length (entries (snd e)))"
    using 3 by simp
  from "3.IH"(2)[OF a[symmetric] _ "3.prems"] a show ?case by simp
qed

lemma recursiveWalk_count: "recursiveWalk n countFn c = (False, c + length (entries n))"
  by (rule recursiveWalk_count_aux) simp

lemma sorted_labels_unique:
  assumes "sorted_wrt (<) (map fst (es :: ('a::linorder \<times> 'b) list))"
    "(l, c) \<in> set es" "(l, c') \<in> set es"
  shows "c = c'"
proof -
  have "distinct (map fst es)" using assms(1) by (simp add: strict_sorted_iff)
  then show ?thesis using assms(2,3) by (rule eq_key_imp_eq_value)
qed

lemma entries_path_iff:
  assumes "node_inv q n"
  shows "(q @ prefix n, v) \<in> set (entries n) \<longleftrightarrow> (\<exists>lf. leaf n = Some lf \<and> val lf = v)"
proof -
  have no_child: "(q @ prefix n, v) \<notin> set (entries (snd e))" if "e \<in> set (edges n)" for e
  proof
    assume "(q @ prefix n, v) \<in> set (entries (snd e))"
    from node_inv_child_keys[OF assms that this] show False by simp
  qed
  show ?thesis
  proof (cases n)
    case (Node lf pre es)
    then show ?thesis using assms no_child by (auto split: option.splits)
  qed
qed

lemma entries_child_iff:
  assumes "node_inv q n"
  shows "(q @ prefix n @ l # s, v) \<in> set (entries n)
         \<longleftrightarrow> (\<exists>c. (l, c) \<in> set (edges n) \<and> (q @ prefix n @ l # s, v) \<in> set (entries c))"
proof -
  have other: "fst e = l" if "e \<in> set (edges n)" "(q @ prefix n @ l # s, v) \<in> set (entries (snd e))" for e
    using node_inv_child_keys[OF assms that] by simp
  show ?thesis
  proof (cases n)
    case (Node lf pre es)
    have "(q @ pre @ l # s, v) \<in> set (entries n) \<longleftrightarrow>
          (\<exists>e\<in>set es. (q @ pre @ l # s, v) \<in> set (entries (snd e)))"
      using assms Node by (auto split: option.splits)
    also have "\<dots> \<longleftrightarrow> (\<exists>c. (l, c) \<in> set es \<and> (q @ pre @ l # s, v) \<in> set (entries c))"
    proof
      assume "\<exists>e\<in>set es. (q @ pre @ l # s, v) \<in> set (entries (snd e))"
      then obtain e where e: "e \<in> set es" "(q @ pre @ l # s, v) \<in> set (entries (snd e))"
        by blast
      then have "fst e = l" using other[of e] Node by simp
      then have "(l, snd e) \<in> set es" using e(1) by (cases e) simp
      then show "\<exists>c. (l, c) \<in> set es \<and> (q @ pre @ l # s, v) \<in> set (entries c)"
        using e(2) by blast
    next
      assume "\<exists>c. (l, c) \<in> set es \<and> (q @ pre @ l # s, v) \<in> set (entries c)"
      then show "\<exists>e\<in>set es. (q @ pre @ l # s, v) \<in> set (entries (snd e))" by force
    qed
    finally show ?thesis using Node by simp
  qed
qed

lemma get_node_entries:
  "node_inv q n \<Longrightarrow> get_node n s = Some v \<longleftrightarrow> (q @ prefix n @ s, v) \<in> set (entries n)"
proof (induction n s arbitrary: q rule: get_node.induct)
  case (1 n search)
  note inv = "1.prems"
  show ?case
  proof (cases "length search = 0")
    case True
    then have "get_node n search = (case leaf n of Some lf \<Rightarrow> Some (val lf) | None \<Rightarrow> None)"
      by (subst get_node.simps) simp
    then show ?thesis using entries_path_iff[OF inv, of v] True
      by (auto split: option.splits)
  next
    case ne: False
    then obtain l s' where s: "search = l # s'" by (cases search) auto
    have sorted: "sorted_wrt (<) (map fst (edges n))" using inv by (cases n) simp
    show ?thesis
    proof (cases "getEdge n l")
      case None
      then have "get_node n search = None" using s by (subst get_node.simps) simp
      moreover have "l \<notin> fst ` set (edges n)" using getEdge_None_sorted[OF sorted None] .
      then have "(q @ prefix n @ l # s', v) \<notin> set (entries n)"
        using entries_child_iff[OF inv, of l s' v] by force
      ultimately show ?thesis using s by simp
    next
      case (Some c)
      from getEdge_split[OF Some] have mem: "(l, c) \<in> set (edges n)" by auto
      have cinv: "node_inv (q @ prefix n) c" using inv mem by (cases n) auto
      have iff: "(q @ prefix n @ search, v) \<in> set (entries n)
                 \<longleftrightarrow> (q @ prefix n @ search, v) \<in> set (entries c)"
      proof -
        have "(\<exists>c'. (l, c') \<in> set (edges n) \<and> (q @ prefix n @ l # s', v) \<in> set (entries c'))
              \<longleftrightarrow> (q @ prefix n @ l # s', v) \<in> set (entries c)"
        proof
          assume "\<exists>c'. (l, c') \<in> set (edges n) \<and> (q @ prefix n @ l # s', v) \<in> set (entries c')"
          then obtain c' where c': "(l, c') \<in> set (edges n)"
            "(q @ prefix n @ l # s', v) \<in> set (entries c')" by blast
          from sorted_labels_unique[OF sorted mem c'(1)] c'(2)
          show "(q @ prefix n @ l # s', v) \<in> set (entries c)" by simp
        next
          assume "(q @ prefix n @ l # s', v) \<in> set (entries c)"
          then show "\<exists>c'. (l, c') \<in> set (edges n) \<and> (q @ prefix n @ l # s', v) \<in> set (entries c')"
            using mem by blast
        qed
        then show ?thesis using entries_child_iff[OF inv, of l s' v] s by simp
      qed
      show ?thesis
      proof (cases "HasPrefix search (prefix c)")
        case True
        have g: "get_node n search = get_node c (drop (length (prefix c)) search)"
          using s Some True by (subst get_node.simps) simp
        from "1.IH"[OF ne _ True cinv] Some s
        have "get_node c (drop (length (prefix c)) search) = Some v \<longleftrightarrow>
              ((q @ prefix n) @ prefix c @ drop (length (prefix c)) search, v) \<in> set (entries c)"
          by simp
        then show ?thesis using g iff HasPrefix_drop[OF True] by simp
      next
        case False
        have g: "get_node n search = None"
          using s Some False by (subst get_node.simps) simp
        have "(q @ prefix n @ search, v) \<notin> set (entries c)"
        proof
          assume "(q @ prefix n @ search, v) \<in> set (entries c)"
          from node_inv_keys[OF cinv this] obtain r where "search = prefix c @ r" by auto
          then show False using False HasPrefix_iff by blast
        qed
        then show ?thesis using g iff by simp
      qed
    qed
  qed
qed

lemma Get_entries: "tree_inv t \<Longrightarrow> Get t s = Some v \<longleftrightarrow> (s, v) \<in> set (entries (root t))"
  unfolding tree_inv_def Get_def using get_node_entries[of "[]" "root t" s v] by simp

section \<open>Children of a node and Insert\<close>

lemma entries_reprefix: "entries (Node (leaf c) x (edges c)) = entries c"
  by (cases c) simp

lemma node_inv_reprefix:
  "q @ x = q' @ prefix c \<Longrightarrow> node_inv q (Node (leaf c) x (edges c)) = node_inv q' c"
  by (cases c) (simp split: option.splits)

lemma node_inv_edge:
  "node_inv q n \<Longrightarrow> e \<in> set (edges n) \<Longrightarrow>
     node_inv (q @ prefix n) (snd e) \<and> prefix (snd e) \<noteq> [] \<and> hd (prefix (snd e)) = fst e"
  by (cases n) simp

lemma node_inv_sorted_edges: "node_inv q n \<Longrightarrow> sorted_wrt (<) (map fst (edges n))"
  by (cases n) simp

lemma node_inv_leaf: "node_inv q n \<Longrightarrow> leaf n = Some lf \<Longrightarrow> key lf = q @ prefix n"
  by (cases n) simp

text \<open>A node without one of its children.\<close>

lemma child_context:
  assumes inv: "node_inv q n" and get: "getEdge n l = Some c"
  shows "\<exists>xs ys. edges n = xs @ (l, c) # ys
     \<and> l \<notin> fst ` set xs \<and> l \<notin> fst ` set ys
     \<and> (\<forall>c'. setChild n l c' = Node (leaf n) (prefix n) (xs @ (l, c') # ys))
     \<and> (\<forall>c'. updateEdge n l c' = Inr (Node (leaf n) (prefix n) (xs @ (l, c') # ys)))
     \<and> delEdge n l = Node (leaf n) (prefix n) (xs @ ys)"
proof -
  from getEdge_split[OF get] obtain xs ys where s: "edges n = xs @ (l, c) # ys"
    "\<forall>c'. setChild n l c' = Node (leaf n) (prefix n) (xs @ (l, c') # ys)"
    "\<forall>c'. updateEdge n l c' = Inr (Node (leaf n) (prefix n) (xs @ (l, c') # ys))"
    "delEdge n l = Node (leaf n) (prefix n) (xs @ ys)" by blast
  have "sorted_wrt (<) (map fst (xs @ (l, c) # ys))"
    using node_inv_sorted_edges[OF inv] s(1) by simp
  then have "l \<notin> fst ` set xs \<and> l \<notin> fst ` set ys"
    by (auto simp: sorted_wrt_append)
  then show ?thesis using s by blast
qed

lemma getEdge_child:
  assumes "node_inv q n" "getEdge n l = Some c"
  shows "node_inv (q @ prefix n) c" "prefix c \<noteq> []" "hd (prefix c) = l"
proof -
  from getEdge_split[OF assms(2)] have "(l, c) \<in> set (edges n)" by auto
  from node_inv_edge[OF assms(1) this]
  show "node_inv (q @ prefix n) c" "prefix c \<noteq> []" "hd (prefix c) = l" by simp_all
qed

lemma entries_with_child:
  assumes "node_inv q n" "getEdge n l = Some c"
  shows "set (entries n) = set (entries (delEdge n l)) \<union> set (entries c)"
proof -
  from child_context[OF assms] obtain xs ys where "edges n = xs @ (l, c) # ys"
    "delEdge n l = Node (leaf n) (prefix n) (xs @ ys)" by blast
  then show ?thesis by (cases n) auto
qed

lemma entries_setChild:
  assumes "node_inv q n" "getEdge n l = Some c"
  shows "set (entries (setChild n l c')) = set (entries (delEdge n l)) \<union> set (entries c')"
proof -
  from child_context[OF assms] obtain xs ys where
    "setChild n l c' = Node (leaf n) (prefix n) (xs @ (l, c') # ys)"
    "delEdge n l = Node (leaf n) (prefix n) (xs @ ys)" by blast
  then show ?thesis by auto
qed

lemma node_inv_delEdge:
  assumes "node_inv q n" "getEdge n l = Some c"
  shows "node_inv q (delEdge n l)"
proof -
  from child_context[OF assms] obtain xs ys where "edges n = xs @ (l, c) # ys"
    "delEdge n l = Node (leaf n) (prefix n) (xs @ ys)" by blast
  then show ?thesis using assms(1) by (cases n) (auto simp: sorted_wrt_append)
qed

lemma node_inv_setChild:
  assumes "node_inv q n" "getEdge n l = Some c"
    and "node_inv (q @ prefix n) c'" "prefix c' \<noteq> []" "hd (prefix c') = l"
  shows "node_inv q (setChild n l c')"
proof -
  from child_context[OF assms(1,2)] obtain xs ys where "edges n = xs @ (l, c) # ys"
    "setChild n l c' = Node (leaf n) (prefix n) (xs @ (l, c') # ys)" by blast
  then show ?thesis using assms(1,3-) by (cases n) (auto simp: sorted_wrt_append)
qed

lemma entries_delEdge_keys:
  assumes "node_inv q n" "getEdge n l = Some c" "x \<in> set (entries (delEdge n l))"
  shows "fst x \<noteq> q @ prefix n @ l # r"
proof
  assume k: "fst x = q @ prefix n @ l # r"
  from child_context[OF assms(1,2)] obtain xs ys where c: "edges n = xs @ (l, c) # ys"
    "l \<notin> fst ` set xs" "l \<notin> fst ` set ys"
    "delEdge n l = Node (leaf n) (prefix n) (xs @ ys)" by blast
  have mem: "x \<in> set (entries (Node (leaf n) (prefix n) (xs @ ys)))"
    using assms(3) c(4) by simp
  have sib: False if child: "e \<in> set xs \<union> set ys" "x \<in> set (entries (snd e))" for e
  proof -
    have "e \<in> set (edges n)" using child(1) c(1) by auto
    moreover have "(fst x, snd x) \<in> set (entries (snd e))" using child(2) by simp
    ultimately obtain r' where "fst x = q @ prefix n @ fst e # r'"
      using node_inv_child_keys[OF assms(1)] by blast
    then have "fst e = l" using k by simp
    then show ?thesis using child(1) c(2,3) by auto
  qed
  show False
  proof (cases "leaf n")
    case None
    then have "\<exists>e \<in> set xs \<union> set ys. x \<in> set (entries (snd e))" using mem by auto
    then show ?thesis using sib by blast
  next
    case (Some lf)
    then have "x = (key lf, val lf) \<or> (\<exists>e \<in> set xs \<union> set ys. x \<in> set (entries (snd e)))"
      using mem by auto
    moreover have "x \<noteq> (key lf, val lf)"
      using node_inv_leaf[OF assms(1) Some] k by auto
    ultimately show ?thesis using sib by blast
  qed
qed

lemma setChild_fields [simp]:
  "leaf (setChild n l c) = leaf n" "prefix (setChild n l c) = prefix n"
  "length (edges (setChild n l c)) = length (edges n)"
  by (auto simp: setChild_def split: option.splits)

lemma delEdge_fields [simp]:
  "leaf (delEdge n l) = leaf n" "prefix (delEdge n l) = prefix n"
  by (auto simp: delEdge_def split: option.splits)

lemma addEdge_fields [simp]:
  "leaf (addEdge n e) = leaf n" "prefix (addEdge n e) = prefix n"
  by (auto simp: addEdge_def)

lemma distinct_map_sort_key: "distinct (map f (sort_key f xs)) = distinct (map f xs)"
  by (induction xs) (auto simp: distinct_insort_key set_insort_key)

lemma sorted_wrt_sort_key:
  fixes f :: "'a \<Rightarrow> 'b::linorder"
  shows "distinct (map f xs) \<Longrightarrow> sorted_wrt (<) (map f (sort_key f xs))"
  by (simp add: strict_sorted_iff distinct_map_sort_key)

lemma node_inv_addEdge:
  assumes "node_inv q n" "fst e \<notin> fst ` set (edges n)"
    and "node_inv (q @ prefix n) (snd e)" "prefix (snd e) \<noteq> []" "hd (prefix (snd e)) = fst e"
  shows "node_inv q (addEdge n e)"
proof -
  have "distinct (map fst (edges n))"
    using node_inv_sorted_edges[OF assms(1)] by (simp add: strict_sorted_iff)
  then have "distinct (map fst (edges n @ [e]))" using assms(2) by simp
  then have "sorted_wrt (<) (map fst (sort_key fst (edges n @ [e])))"
    by (rule sorted_wrt_sort_key)
  then show ?thesis using assms(1,3-) unfolding addEdge_def by (cases n) auto
qed

lemma entries_addEdge: "set (entries (addEdge n e)) = set (entries n) \<union> set (entries (snd e))"
  unfolding addEdge_def by (cases n) auto

lemma longestPrefix_take: "take (longestPrefix a b) a = take (longestPrefix a b) b"
  by (induction a b rule: longestPrefix.induct) auto

lemma longestPrefix_differ:
  "longestPrefix a b < length a \<Longrightarrow> longestPrefix a b < length b
     \<Longrightarrow> a ! longestPrefix a b \<noteq> b ! longestPrefix a b"
  by (induction a b rule: longestPrefix.induct) auto

lemma longestPrefix_pos: "a \<noteq> [] \<Longrightarrow> b \<noteq> [] \<Longrightarrow> hd a = hd b \<Longrightarrow> 0 < longestPrefix a b"
  by (cases a; cases b) auto

lemma longestPrefix_append: "longestPrefix (b @ r) b = length b"
  by (induction b) auto

lemma HasPrefix_longestPrefix: "HasPrefix a b \<longleftrightarrow> longestPrefix a b = length b"
proof
  assume "HasPrefix a b"
  then obtain r where "a = b @ r" using HasPrefix_iff by blast
  then show "longestPrefix a b = length b" by (simp add: longestPrefix_append)
next
  assume l: "longestPrefix a b = length b"
  have "take (length b) a = b" using longestPrefix_take[of a b] l by simp
  moreover have "length b \<le> length a" using longestPrefix_le1[of a b] l by simp
  ultimately show "HasPrefix a b" by (simp add: HasPrefix_def)
qed


lemma get_node_absent:
  assumes "node_inv q n" "get_node n search = None" "x \<in> set (entries n)"
  shows "fst x \<noteq> q @ prefix n @ search"
proof
  assume "fst x = q @ prefix n @ search"
  then have "(q @ prefix n @ search, snd x) \<in> set (entries n)"
    using assms(3) by (metis prod.collapse)
  then show False using get_node_entries[OF assms(1), of search "snd x"] assms(2) by simp
qed

lemma get_node_present:
  assumes "node_inv q n" "get_node n search = Some y" "x \<in> set (entries n)"
  shows "fst x = q @ prefix n @ search \<longleftrightarrow> x = (q @ prefix n @ search, y)"
proof
  assume k: "fst x = q @ prefix n @ search"
  then have "(q @ prefix n @ search, snd x) \<in> set (entries n)"
    using assms(3) by (metis prod.collapse)
  then have "snd x = y" using get_node_entries[OF assms(1), of search "snd x"] assms(2) by simp
  then show "x = (q @ prefix n @ search, y)" using k by (cases x) simp
qed simp

lemma insert_node_correct:
  "node_inv q n \<Longrightarrow> s = q @ prefix n @ search \<Longrightarrow> insert_node s v n search = Inr (old, grew, n')
   \<Longrightarrow> node_inv q n' \<and> prefix n' = prefix n
       \<and> set (entries n') = {x \<in> set (entries n). fst x \<noteq> s} \<union> {(s, v)}
       \<and> old = get_node n search \<and> grew = (old = None)"
proof (induction s v n search arbitrary: q old grew n' rule: insert_node.induct)
  case (1 s v n search)
  note inv = "1.prems"(1) and s = "1.prems"(2) and res = "1.prems"(3)
  show ?case
  proof (cases "length search = 0")
    case True
    then have se: "search = []" by simp
    define C where "C = set (concat (map (\<lambda>e. entries (snd e)) (edges n)))"
    have rest: "\<forall>x\<in>C. fst x \<noteq> s"
    proof
      fix x assume "x \<in> C"
      then obtain e where e: "e \<in> set (edges n)" "(fst x, snd x) \<in> set (entries (snd e))"
        unfolding C_def by auto
      from node_inv_child_keys[OF inv e] show "fst x \<noteq> s" using s se by auto
    qed
    show ?thesis
    proof (cases "leaf n")
      case None
      have g: "get_node n search = None" using se None by (subst get_node.simps) simp
      have r: "old = None" "grew" "n' = Node (Some (LeafNode s v)) (prefix n) (edges n)"
        using res se None by (subst (asm) insert_node.simps, simp)+
      have "set (entries n') = set (entries n) \<union> {(s, v)}"
        unfolding r using None by (cases n) auto
      moreover have "{x \<in> set (entries n). fst x \<noteq> s} = set (entries n)"
        using get_node_absent[OF inv g] s by auto
      moreover have "node_inv q n'" unfolding r using inv s se by (cases n) auto
      ultimately show ?thesis using r g by simp
    next
      case (Some lf)
      have g: "get_node n search = Some (val lf)" using se Some by (subst get_node.simps) simp
      have r: "old = Some (val lf)" "\<not> grew" "n' = Node (Some (LeafNode (key lf) v)) (prefix n) (edges n)"
        using res se Some by (subst (asm) insert_node.simps, simp)+
      have k: "key lf = s" using node_inv_leaf[OF inv Some] s se by simp
      have "set (entries n') = {(s, v)} \<union> C"
        unfolding r k C_def by simp
      moreover have "set (entries n) = {(s, val lf)} \<union> C"
        unfolding C_def using Some k by (cases n) auto
      ultimately have "set (entries n') = {x \<in> set (entries n). fst x \<noteq> s} \<union> {(s, v)}"
        using rest by auto
      moreover have "node_inv q n'" unfolding r using inv Some by (cases n) auto
      ultimately show ?thesis using r g by simp
    qed
  next
    case ne: False
    then obtain l s' where sl: "search = l # s'" by (cases search) auto
    show ?thesis
    proof (cases "getEdge n (hd search)")
      case None
      let ?new = "Node (Some (LeafNode s v)) search []"
      have g: "get_node n search = None" using ne None by (subst get_node.simps) simp
      have r: "old = None" "grew" "n' = addEdge n (l, ?new)"
        using res ne None sl by (subst (asm) insert_node.simps, simp)+
      have "l \<notin> fst ` set (edges n)"
        using getEdge_None_sorted[OF node_inv_sorted_edges[OF inv]] None sl by simp
      then have "node_inv q n'" unfolding r
        using inv s sl by (intro node_inv_addEdge) auto
      moreover have "set (entries n') = set (entries n) \<union> {(s, v)}"
        unfolding r by (simp add: entries_addEdge)
      moreover have "{x \<in> set (entries n). fst x \<noteq> s} = set (entries n)"
        using get_node_absent[OF inv g] s by auto
      ultimately show ?thesis using r g by simp
    next
      case (Some c)
      have Some': "getEdge n l = Some c" using Some sl by simp
      note cinv = getEdge_child[OF inv Some']
      let ?cp = "longestPrefix search (prefix c)"
      have others: "fst x \<noteq> s" if "x \<in> set (entries (delEdge n l))" for x
        using entries_delEdge_keys[OF inv Some' that, of s'] s sl by simp
      show ?thesis
      proof (cases "?cp = length (prefix c)")
        case True
        then have hp: "HasPrefix search (prefix c)" by (simp add: HasPrefix_longestPrefix)
        obtain c' where rc: "insert_node s v c (drop ?cp search) = Inr (old, grew, c')"
          and r: "n' = setChild n l c'"
          using res ne Some True sl by (subst (asm) insert_node.simps) auto
        have s2: "s = (q @ prefix n) @ prefix c @ drop ?cp search"
          using s HasPrefix_drop[OF hp] True by simp
        from "1.IH"[OF ne Some refl True cinv(1) s2 rc]
        have ih: "node_inv (q @ prefix n) c'" "prefix c' = prefix c"
          "set (entries c') = {x \<in> set (entries c). fst x \<noteq> s} \<union> {(s, v)}"
          "old = get_node c (drop ?cp search)" "grew = (old = None)" by simp_all
        have g: "get_node n search = get_node c (drop ?cp search)"
          using ne Some hp True by (subst get_node.simps) simp
        have "node_inv q n'" unfolding r
          using node_inv_setChild[OF inv Some' ih(1)] cinv ih(2) by simp
        moreover have "set (entries n') = {x \<in> set (entries n). fst x \<noteq> s} \<union> {(s, v)}"
          unfolding r entries_setChild[OF inv Some'] entries_with_child[OF inv Some'] ih(3)
          using others by auto
        ultimately show ?thesis using ih(4,5) g r by simp
      next
        case False
        then have lt: "?cp < length (prefix c)"
          using longestPrefix_le2[of search "prefix c"] by simp
        have nhp: "\<not> HasPrefix search (prefix c)" using False by (simp add: HasPrefix_longestPrefix)
        have pos: "0 < ?cp" using longestPrefix_pos[of search "prefix c"] cinv sl by simp
        have le: "?cp \<le> length search" by (rule longestPrefix_le1)
        have tk: "take ?cp search = take ?cp (prefix c)" by (rule longestPrefix_take)
        let ?ctrim = "Node (leaf c) (drop ?cp (prefix c)) (edges c)"
        let ?lf = "LeafNode s v"
        let ?child = "if length (drop ?cp search) = 0
             then Node (Some ?lf) (take ?cp search) [(prefix c ! ?cp, ?ctrim)]
             else addEdge (Node None (take ?cp search) [(prefix c ! ?cp, ?ctrim)])
                    (hd (drop ?cp search), Node (Some ?lf) (drop ?cp search) [])"
        have hl: "hd search = l" "search \<noteq> []" using sl by simp_all
        have eq: "insert_node s v n search
                  = ebind (updateEdge n l (Node None (take ?cp search) []))
                      (\<lambda>_. Inr (None, True, setChild n l ?child))"
          by (subst insert_node.simps) (simp add: ne Some' False lt Let_def addEdge_def hl)
        from child_context[OF inv Some'] obtain n0 where
          "updateEdge n l (Node None (take ?cp search) []) = Inr n0" by auto
        then have "insert_node s v n search = Inr (None, True, setChild n l ?child)"
          unfolding eq by (simp add: ebind_def)
        with res have r: "old = None" "grew" "n' = setChild n l ?child" by auto
        have g: "get_node n search = None"
          using ne Some nhp by (subst get_node.simps) simp
        let ?P = "q @ prefix n"
        have path: "(?P @ take ?cp search) @ drop ?cp (prefix c) = ?P @ prefix c"
          using tk by simp
        have ctrim_inv: "node_inv (?P @ take ?cp search) ?ctrim"
          using node_inv_reprefix[OF path] cinv(1) by simp
        have ctrim_pre: "drop ?cp (prefix c) \<noteq> []" "hd (drop ?cp (prefix c)) = prefix c ! ?cp"
          using lt by (simp_all add: hd_drop_conv_nth)
        have child_inv: "node_inv ?P ?child"
        proof (cases "length (drop ?cp search) = 0")
          case True
          then have "s = ?P @ take ?cp search" using s by simp
          then show ?thesis using True ctrim_inv ctrim_pre by simp
        next
          case f: False
          then have lts: "?cp < length search" by simp
          have d: "search ! ?cp \<noteq> prefix c ! ?cp"
            using longestPrefix_differ[OF lts lt] .
          have hd: "hd (drop ?cp search) = search ! ?cp" using lts by (simp add: hd_drop_conv_nth)
          have "s = ?P @ take ?cp search @ drop ?cp search" using s by simp
          then have new_inv: "node_inv (?P @ take ?cp search) (Node (Some ?lf) (drop ?cp search) [])"
            by simp
          have "node_inv ?P (Node None (take ?cp search) [(prefix c ! ?cp, ?ctrim)])"
            using ctrim_inv ctrim_pre by simp
          then have "node_inv ?P (addEdge (Node None (take ?cp search) [(prefix c ! ?cp, ?ctrim)])
                    (hd (drop ?cp search), Node (Some ?lf) (drop ?cp search) []))"
            using new_inv f d hd by (intro node_inv_addEdge) auto
          then show ?thesis using f by simp
        qed
        have child_pre: "prefix ?child \<noteq> []" "hd (prefix ?child) = l"
          using pos le sl by (auto simp: hd_take)
        have e1: "set (entries (Node lfo pre [(x, ?ctrim)]))
                  = set (case lfo of None \<Rightarrow> [] | Some lf \<Rightarrow> [(key lf, val lf)]) \<union> set (entries c)"
          for lfo pre x
          by (subst entries_Node) (simp del: entries_Node add: entries_reprefix)
        have e2: "entries (Node (Some ?lf) x []) = [(s, v)]" for x by simp
        have child_entries: "set (entries ?child) = set (entries c) \<union> {(s, v)}"
          by (simp del: entries_Node add: e1 e2 entries_addEdge)
        have in_c: "fst x \<noteq> s" if "x \<in> set (entries c)" for x
        proof
          assume fs: "fst x = s"
          have "(fst x, snd x) \<in> set (entries c)" using that by simp
          from node_inv_keys[OF cinv(1) this]
          obtain r where "fst x = (q @ prefix n) @ prefix c @ r" ..
          then have "search = prefix c @ r" using s fs by simp
          then show False using nhp HasPrefix_iff by blast
        qed
        have "node_inv q n'" unfolding r
          using node_inv_setChild[OF inv Some' child_inv child_pre] .
        moreover have "set (entries n') = {x \<in> set (entries n). fst x \<noteq> s} \<union> {(s, v)}"
          unfolding r entries_setChild[OF inv Some'] entries_with_child[OF inv Some'] child_entries
          using others in_c by auto
        ultimately show ?thesis using r g by simp
      qed
    qed
  qed
qed

section \<open>Delete\<close>

lemma Search_loop_cong:
  "(\<forall>k<j. f k = g k) \<Longrightarrow> Search_loop f i j = Search_loop g i j"
proof (induction f i j rule: Search_loop.induct)
  case (1 f i j)
  show ?case
  proof (cases "i < j")
    case False
    then show ?thesis by (subst Search_loop.simps, subst (2) Search_loop.simps) simp
  next
    case True
    let ?h = "(i + j) div 2"
    have h: "?h < j" using True by auto
    then have fg: "f ?h = g ?h" using "1.prems" by blast
    show ?thesis
    proof (cases "f ?h")
      case fh: True
      have "Search_loop f i ?h = Search_loop g i ?h"
        using "1.IH"(2)[OF True refl] fh "1.prems" h by auto
      then show ?thesis using True fh fg
        by (subst Search_loop.simps, subst (2) Search_loop.simps) (simp add: Let_def)
    next
      case fh: False
      have "Search_loop f (?h + 1) j = Search_loop g (?h + 1) j"
        using "1.IH"(1)[OF True refl] fh "1.prems" by auto
      then show ?thesis using True fh fg
        by (subst Search_loop.simps, subst (2) Search_loop.simps) (simp add: Let_def)
    qed
  qed
qed

lemma edgeIdx_cong:
  assumes "map fst es = map fst es'"
  shows "edgeIdx es l = edgeIdx es' l"
proof -
  have len: "length es = length es'" using assms by (rule map_eq_imp_length_eq)
  have nth: "fst (es ! k) = fst (es' ! k)" if "k < length es" for k
    using assms that len by (metis nth_map)
  have "Search (length es) (\<lambda>i. l \<le> fst (es ! i)) = Search (length es) (\<lambda>i. l \<le> fst (es' ! i))"
    unfolding Search_def by (rule Search_loop_cong) (simp add: nth)
  then show ?thesis using len nth by (auto simp: edgeIdx_def Let_def)
qed

lemma delEdge_setChild:
  assumes "getEdge n l = Some c"
  shows "delEdge (setChild n l c') l = delEdge n l"
proof -
  from assms obtain i where i: "edgeIdx (edges n) l = Some i"
    by (auto simp: getEdge_def split: option.splits)
  let ?es' = "(edges n)[i := (fst (edges n ! i), c')]"
  have "map fst ?es' = (map fst (edges n))[i := map fst (edges n) ! i]"
    using edgeIdx_less[OF i] by (simp add: map_update)
  then have "map fst ?es' = map fst (edges n)" by (simp only: list_update_id)
  then have "edgeIdx ?es' l = Some i" using edgeIdx_cong[of ?es' "edges n" l] i by simp
  then show ?thesis using i by (simp add: delEdge_def setChild_def)
qed

lemma node_inv_distinct_entries: "node_inv q n \<Longrightarrow> distinct (entries n)"
  using node_inv_distinct[of q n] by (rule_tac distinct_map[THEN iffD1, THEN conjunct1])

lemma length_entries_card: "node_inv q n \<Longrightarrow> length (entries n) = card (set (entries n))"
  by (simp add: node_inv_distinct_entries distinct_card)

lemma mergeChild_correct:
  assumes "node_inv q n" "leaf n = None" "length (edges n) = 1" "prefix n \<noteq> []"
  shows "\<exists>n'. mergeChild n = Inr n' \<and> node_inv q n' \<and> entries n' = entries n
              \<and> prefix n' \<noteq> [] \<and> hd (prefix n') = hd (prefix n)"
proof -
  from assms(3) obtain e where e: "edges n = [e]" by (cases "edges n") auto
  let ?n' = "Node (leaf (snd e)) (prefix n @ prefix (snd e)) (edges (snd e))"
  have m: "mergeChild n = Inr ?n'" using e by (simp add: mergeChild_def)
  have c: "node_inv (q @ prefix n) (snd e)" using node_inv_edge[OF assms(1), of e] e by simp
  have "q @ prefix n @ prefix (snd e) = (q @ prefix n) @ prefix (snd e)" by simp
  from node_inv_reprefix[OF this] c have "node_inv q ?n'" by simp
  moreover have "entries ?n' = entries n"
    using e assms(2) entries_reprefix[of "snd e"] by (subst (2) entries.simps) simp
  ultimately show ?thesis using m assms(4) by simp
qed

lemma delete_child_correct:
  assumes inv: "node_inv q parent" and get: "getEdge parent l = Some n"
    and lf: "leaf n = Some lf" and nr: "\<not> r \<longrightarrow> prefix parent \<noteq> []"
    and res: "delete_child r parent l n = Inr p'"
  shows "node_inv q p' \<and> set (entries p') = set (entries parent) - {(key lf, val lf)}
         \<and> (r \<longrightarrow> prefix p' = prefix parent)
         \<and> (prefix parent \<noteq> [] \<longrightarrow> prefix p' \<noteq> [] \<and> hd (prefix p') = hd (prefix parent))"
proof -
  note cinv = getEdge_child[OF inv get]
  define n1 where "n1 = Node None (prefix n) (edges n)"
  have n1: "node_inv (q @ prefix parent) n1" "leaf n1 = None" "prefix n1 = prefix n"
    "edges n1 = edges n"
    using cinv(1) unfolding n1_def by (cases n; simp)+
  have kv: "key lf = q @ prefix parent @ prefix n" using node_inv_leaf[OF cinv(1) lf] by simp
  have en: "entries n = (key lf, val lf) # entries n1"
    unfolding n1_def using lf by (cases n) simp
  have "distinct (entries n)" by (rule node_inv_distinct_entries[OF cinv(1)])
  then have en1: "set (entries n1) = set (entries n) - {(key lf, val lf)}"
    unfolding en by auto
  obtain n2 where n2: "(if length (edges n1) = 1 then mergeChild n1 else Inr n1) = Inr n2"
    and n2_inv: "node_inv (q @ prefix parent) n2" and n2_e: "entries n2 = entries n1"
    and n2_p: "prefix n2 \<noteq> []" "hd (prefix n2) = l"
  proof (cases "length (edges n1) = 1")
    case True
    from mergeChild_correct[OF n1(1,2) True] cinv(2,3) n1(3) that True show ?thesis by auto
  next
    case False
    then show ?thesis using that[of n1] n1 cinv by simp
  qed
  define parent1 where "parent1 = setChild parent l n2"
  define parent2 where "parent2 = (if length (edges n1) = 0 then delEdge parent1 l else parent1)"
  have res': "(if \<not> r \<and> length (edges parent2) = 1 \<and> \<not> isLeaf parent2
               then mergeChild parent2 else Inr parent2) = Inr p'"
    using res n2 unfolding delete_child_def Let_def n1_def[symmetric] parent1_def parent2_def
    by (auto split: if_splits)
  have p1_inv: "node_inv q parent1" unfolding parent1_def
    by (rule node_inv_setChild[OF inv get n2_inv n2_p])
  have rest: "(key lf, val lf) \<notin> set (entries (delEdge parent l))"
  proof
    assume "(key lf, val lf) \<in> set (entries (delEdge parent l))"
    from entries_delEdge_keys[OF inv get this, of "tl (prefix n)"] kv cinv(2,3)
    show False by (cases "prefix n") auto
  qed
  have p1_e: "set (entries parent1) = set (entries parent) - {(key lf, val lf)}"
    unfolding parent1_def entries_setChild[OF inv get] entries_with_child[OF inv get] n2_e en1
    using rest by auto
  have p2: "node_inv q parent2 \<and> set (entries parent2) = set (entries parent1)
            \<and> prefix parent2 = prefix parent"
  proof (cases "length (edges n1) = 0")
    case True
    then have "entries n1 = []" using n1(2,4) by (subst entries.simps) simp
    moreover have "parent2 = delEdge parent l"
      unfolding parent2_def parent1_def using True delEdge_setChild[OF get] by simp
    ultimately show ?thesis
      using node_inv_delEdge[OF inv get] n2_e
      unfolding parent1_def entries_setChild[OF inv get] by simp
  next
    case False
    then show ?thesis unfolding parent2_def using p1_inv by (simp add: parent1_def)
  qed
  show ?thesis
  proof (cases "\<not> r \<and> length (edges parent2) = 1 \<and> \<not> isLeaf parent2")
    case True
    then have "prefix parent2 \<noteq> []" "leaf parent2 = None" "length (edges parent2) = 1"
      using nr p2 by (auto simp: isLeaf_def)
    from mergeChild_correct[OF _ this(2,3,1)] p2 res' True p1_e
    show ?thesis by auto
  next
    case False
    then have "p' = parent2" using res' by (auto split: if_splits)
    then show ?thesis using p2 p1_e by simp
  qed
qed


lemma delete_desc_correct:
  "node_inv q n \<Longrightarrow> search \<noteq> [] \<Longrightarrow> (\<not> r \<longrightarrow> prefix n \<noteq> [])
   \<Longrightarrow> delete_desc r n search = Inr res
   \<Longrightarrow> (case res of
          None \<Rightarrow> get_node n search = None
        | Some (v, n') \<Rightarrow>
            get_node n search = Some v \<and> node_inv q n'
            \<and> set (entries n') = set (entries n) - {(q @ prefix n @ search, v)}
            \<and> (r \<longrightarrow> prefix n' = prefix n)
            \<and> (prefix n \<noteq> [] \<longrightarrow> prefix n' \<noteq> [] \<and> hd (prefix n') = hd (prefix n)))"
proof (induction r n search arbitrary: q res rule: delete_desc.induct)
  case (1 r n search)
  note inv = "1.prems"(1) and ne = "1.prems"(2) and nr = "1.prems"(3) and res = "1.prems"(4)
  obtain l s' where sl: "search = l # s'" using ne by (cases search) auto
  show ?case
  proof (cases "getEdge n (hd search)")
    case None
    then have "get_node n search = None" using ne by (subst get_node.simps) simp
    moreover have "res = None" using res None by (subst (asm) delete_desc.simps) simp
    ultimately show ?thesis by simp
  next
    case (Some c)
    have Some': "getEdge n l = Some c" using Some sl by simp
    note cinv = getEdge_child[OF inv Some']
    show ?thesis
    proof (cases "HasPrefix search (prefix c)")
      case False
      then have "get_node n search = None" using ne Some by (subst get_node.simps) simp
      moreover have "res = None" using res Some False by (subst (asm) delete_desc.simps) simp
      ultimately show ?thesis by simp
    next
      case hp: True
      let ?s' = "drop (length (prefix c)) search"
      have g: "get_node n search = get_node c ?s'"
        using ne Some hp by (subst get_node.simps) simp
      have sp: "search = prefix c @ ?s'" using HasPrefix_drop[OF hp] by simp
      show ?thesis
      proof (cases "length ?s' = 0")
        case True
        then have se: "search = prefix c" using sp by simp
        have gc: "get_node c ?s' = (case leaf c of Some lf \<Rightarrow> Some (val lf) | None \<Rightarrow> None)"
          using True by (subst get_node.simps) simp
        show ?thesis
        proof (cases "leaf c")
          case None
          then have "res = None" using res Some hp True by (subst (asm) delete_desc.simps) simp
          then show ?thesis using g gc None by simp
        next
          case (Some lf)
          obtain p where dc: "delete_child r n l c = Inr p" and r: "res = Some (val lf, p)"
            using res \<open>getEdge n (hd search) = Some c\<close> hp True Some sl
            by (subst (asm) delete_desc.simps) auto
          have k: "key lf = q @ prefix n @ search"
            using node_inv_leaf[OF cinv(1) Some] se by simp
          from delete_child_correct[OF inv Some' Some nr dc]
          show ?thesis using r g gc Some k by simp
        qed
      next
        case False
        obtain r' where rc: "delete_desc False c ?s' = Inr r'"
          and rr: "res = (case r' of None \<Rightarrow> None | Some (v, c') \<Rightarrow> Some (v, setChild n l c'))"
          using res Some hp False sl
          by (subst (asm) delete_desc.simps) (auto split: option.splits)
        have ne': "?s' \<noteq> []" using False by simp
        from "1.IH"[OF Some hp refl False cinv(1) ne' _ rc] cinv(2)
        have ih: "case r' of None \<Rightarrow> get_node c ?s' = None
           | Some (v, n') \<Rightarrow> get_node c ?s' = Some v \<and> node_inv (q @ prefix n) n'
               \<and> set (entries n') = set (entries c) - {((q @ prefix n) @ prefix c @ ?s', v)}
               \<and> (prefix n' \<noteq> [] \<and> hd (prefix n') = hd (prefix c))"
          by (auto split: option.splits)
        show ?thesis
        proof (cases r')
          case None
          then show ?thesis using ih rr g by simp
        next
          case (Some vc)
          obtain v c' where vc: "vc = (v, c')" by (cases vc)
          have ih': "get_node c ?s' = Some v" "node_inv (q @ prefix n) c'"
            "set (entries c') = set (entries c) - {(q @ prefix n @ search, v)}"
            "prefix c' \<noteq> []" "hd (prefix c') = l"
            using ih Some vc cinv(3) HasPrefix_drop[OF hp] by simp_all
          have r: "res = Some (v, setChild n l c')" using rr Some vc by simp
          have rest: "(q @ prefix n @ search, v) \<notin> set (entries (delEdge n l))"
            using entries_delEdge_keys[OF inv Some', of "(q @ prefix n @ search, v)" s'] sl by auto
          have "set (entries (setChild n l c')) = set (entries n) - {(q @ prefix n @ search, v)}"
            unfolding entries_setChild[OF inv Some'] entries_with_child[OF inv Some'] ih'(3)
            using rest by auto
          moreover have "node_inv q (setChild n l c')"
            by (rule node_inv_setChild[OF inv Some' ih'(2,4,5)])
          ultimately show ?thesis using r g ih'(1) by simp
        qed
      qed
    qed
  qed
qed

lemma entries_filter_absent:
  assumes "node_inv q n" "get_node n search = None" "s = q @ prefix n @ search"
  shows "{x \<in> set (entries n). fst x \<noteq> s} = set (entries n)"
  using get_node_absent[OF assms(1,2)] assms(3) by auto

lemma entries_filter_present:
  assumes "node_inv q n" "get_node n search = Some y" "s = q @ prefix n @ search"
  shows "{x \<in> set (entries n). fst x \<noteq> s} = set (entries n) - {(s, y)}"
  using get_node_present[OF assms(1,2)] assms(3) by auto

lemma Insert_correct:
  assumes "tree_inv t" "Insert t s v = Inr (old, t')"
  shows "tree_inv t' \<and> old = Get t s
         \<and> set (entries (root t')) = {x \<in> set (entries (root t)). fst x \<noteq> s} \<union> {(s, v)}"
proof -
  have inv: "node_inv [] (root t)" and pre: "prefix (root t) = []"
    and sz: "tsize t = int (length (entries (root t)))"
    using assms(1) by (simp_all add: tree_inv_def)
  from assms(2) obtain grew r where ins: "insert_node s v (root t) s = Inr (old, grew, r)"
    and t': "t' = \<lparr>root = r, tsize = (if grew then tsize t + 1 else tsize t)\<rparr>"
    by (auto simp: Insert_def)
  have s: "s = [] @ prefix (root t) @ s" using pre by simp
  from insert_node_correct[OF inv s ins]
  have c: "node_inv [] r" "prefix r = []"
    "set (entries r) = {x \<in> set (entries (root t)). fst x \<noteq> s} \<union> {(s, v)}"
    "old = get_node (root t) s" "grew = (old = None)"
    using pre by simp_all
  have fin: "finite (set (entries (root t)))" by simp
  have "int (card (set (entries r))) = (if grew then tsize t + 1 else tsize t)"
  proof (cases old)
    case None
    then have "{x \<in> set (entries (root t)). fst x \<noteq> s} = set (entries (root t))"
      using entries_filter_absent[OF inv _ s] c(4) by simp
    moreover have "(s, v) \<notin> set (entries (root t))"
      using get_node_absent[OF inv, of s "(s, v)"] c(4) None pre by auto
    ultimately have "card (set (entries r)) = Suc (card (set (entries (root t))))"
      using c(3) by simp
    then show ?thesis using c(5) None sz length_entries_card[OF inv] by simp
  next
    case (Some y)
    then have e: "{x \<in> set (entries (root t)). fst x \<noteq> s} = set (entries (root t)) - {(s, y)}"
      using entries_filter_present[OF inv _ s] c(4) by simp
    have mem: "(s, y) \<in> set (entries (root t))"
      using get_node_entries[OF inv, of s y] c(4) Some pre by simp
    have nb: "(s, v) \<notin> set (entries (root t)) - {(s, y)}"
      using get_node_present[OF inv, of s y "(s, v)"] c(4) Some pre by auto
    have pos: "0 < card (set (entries (root t)))" using mem by (auto simp: card_gt_0_iff)
    have "card (set (entries r)) = card (insert (s, v) (set (entries (root t)) - {(s, y)}))"
      unfolding c(3) e by simp
    also have "\<dots> = Suc (card (set (entries (root t)) - {(s, y)}))"
      using nb by (simp del: Diff_iff insert_iff)
    also have "\<dots> = Suc (card (set (entries (root t))) - 1)"
      using mem by (simp add: card_Diff_singleton)
    finally have "card (set (entries r)) = card (set (entries (root t)))" using pos by simp
    then show ?thesis using c(5) Some sz length_entries_card[OF inv] by simp
  qed
  then have "tsize t' = int (length (entries (root t')))"
    using t' length_entries_card[OF c(1)] by simp
  then show ?thesis using c t' by (simp add: tree_inv_def Get_def)
qed

lemma Delete_correct:
  assumes "tree_inv t" "Delete t s = Inr (old, t')"
  shows "tree_inv t' \<and> old = Get t s
         \<and> set (entries (root t')) = {x \<in> set (entries (root t)). fst x \<noteq> s}
         \<and> (old = None \<longrightarrow> t' = t)"
proof -
  have inv: "node_inv [] (root t)" and pre: "prefix (root t) = []"
    and sz: "tsize t = int (length (entries (root t)))"
    using assms(1) by (simp_all add: tree_inv_def)
  have s: "s = [] @ prefix (root t) @ s" using pre by simp
  have main: "old = get_node (root t) s \<and> (old = None \<longrightarrow> t' = t)
     \<and> (\<forall>y. old = Some y \<longrightarrow> node_inv [] (root t') \<and> prefix (root t') = []
            \<and> set (entries (root t')) = set (entries (root t)) - {(s, y)}
            \<and> tsize t' = tsize t - 1)"
  proof (cases "length s = 0")
    case True
    then have se: "s = []" by simp
    have g: "get_node (root t) s = (case leaf (root t) of Some lf \<Rightarrow> Some (val lf) | None \<Rightarrow> None)"
      using se by (subst get_node.simps) simp
    show ?thesis
    proof (cases "leaf (root t)")
      case None
      then show ?thesis using assms(2) se g by (simp add: Delete_def)
    next
      case (Some lf)
      have r: "old = Some (val lf)"
        "t' = \<lparr>root = Node None (prefix (root t)) (edges (root t)), tsize = tsize t - 1\<rparr>"
        using assms(2) se Some by (simp_all add: Delete_def)
      have k: "key lf = s" using node_inv_leaf[OF inv Some] pre se by simp
      have en: "entries (root t) = (s, val lf) # entries (root t')"
        unfolding r using Some k by (cases "root t") simp
      have "distinct (entries (root t))" by (rule node_inv_distinct_entries[OF inv])
      then have "set (entries (root t')) = set (entries (root t)) - {(s, val lf)}"
        unfolding en by auto
      moreover have "node_inv [] (root t')" unfolding r using inv by (cases "root t") simp
      ultimately show ?thesis using r g Some pre by simp
    qed
  next
    case False
    then have ne: "s \<noteq> []" by simp
    from assms(2) False have "\<exists>res. delete_desc True (root t) s = Inr res \<and>
         (case res of None \<Rightarrow> Inr (None, t)
                | Some (v, r') \<Rightarrow> Inr (Some v, \<lparr>root = r', tsize = tsize t - 1\<rparr>))
          = (Inr (old, t') :: error + 'a option \<times> 'a tree)"
      by (simp add: Delete_def)
    then obtain res where d: "delete_desc True (root t) s = Inr res"
      and r: "(case res of None \<Rightarrow> Inr (None, t)
                | Some (v, r') \<Rightarrow> Inr (Some v, \<lparr>root = r', tsize = tsize t - 1\<rparr>))
          = (Inr (old, t') :: error + 'a option \<times> 'a tree)"
      by blast
    from delete_desc_correct[OF inv ne _ d]
    have c: "case res of None \<Rightarrow> get_node (root t) s = None
        | Some (v, n') \<Rightarrow> get_node (root t) s = Some v \<and> node_inv [] n'
            \<and> set (entries n') = set (entries (root t)) - {(s, v)} \<and> prefix n' = prefix (root t)"
      using pre by (auto split: option.splits)
    show ?thesis
    proof (cases res)
      case None
      then show ?thesis using c r by simp
    next
      case (Some vn)
      obtain v n' where vn: "vn = (v, n')" by (cases vn)
      have o: "old = Some v" "t' = \<lparr>root = n', tsize = tsize t - 1\<rparr>"
        using r Some vn by simp_all
      have "get_node (root t) s = Some v" "node_inv [] n'"
        "set (entries n') = set (entries (root t)) - {(s, v)}" "prefix n' = prefix (root t)"
        using c Some vn by simp_all
      then show ?thesis using o pre by simp
    qed
  qed
  show ?thesis
  proof (cases old)
    case None
    then show ?thesis using main assms(1) entries_filter_absent[OF inv _ s]
      by (simp add: Get_def)
  next
    case (Some y)
    then have m: "node_inv [] (root t')" "prefix (root t') = []"
      "set (entries (root t')) = set (entries (root t)) - {(s, y)}" "tsize t' = tsize t - 1"
      "get_node (root t) s = Some y"
      using main by simp_all
    have "(s, y) \<in> set (entries (root t))"
      using get_node_entries[OF inv, of s y] m(5) pre by simp
    then have "card (set (entries (root t'))) = card (set (entries (root t))) - 1"
      "card (set (entries (root t))) > 0"
      unfolding m(3) by (auto simp: card_gt_0_iff)
    then have "tsize t' = int (length (entries (root t')))"
      using m(4) sz length_entries_card[OF inv] length_entries_card[OF m(1)] by simp
    then show ?thesis using m Some entries_filter_present[OF inv m(5) s]
      by (simp add: tree_inv_def Get_def)
  qed
qed

section \<open>DeletePrefix and reachable trees\<close>

lemma entries_in_child:
  assumes "node_inv q n" "getEdge n l = Some c" "x \<in> set (entries n)"
    "fst x = q @ prefix n @ l # r"
  shows "x \<in> set (entries c)"
proof (rule ccontr)
  assume "x \<notin> set (entries c)"
  then have "x \<in> set (entries (delEdge n l))"
    using assms(3) entries_with_child[OF assms(1,2)] by simp
  from entries_delEdge_keys[OF assms(1,2) this, of r] assms(4) show False by simp
qed

lemma entries_of_child:
  assumes "node_inv q n" "getEdge n l = Some c" "x \<in> set (entries c)"
  shows "x \<in> set (entries n) \<and> (\<exists>r. fst x = q @ prefix n @ prefix c @ r)"
proof -
  have "(fst x, snd x) \<in> set (entries c)" using assms(3) by simp
  from node_inv_keys[OF getEdge_child(1)[OF assms(1,2)] this]
  obtain r where "fst x = (q @ prefix n) @ prefix c @ r" ..
  then show ?thesis using assms(3) entries_with_child[OF assms(1,2)] by simp
qed

lemma HasPrefix_append_cases: "a @ r = b @ r' \<Longrightarrow> HasPrefix a b \<or> HasPrefix b a"
  unfolding HasPrefix_iff append_eq_append_conv2 by metis

lemma discard_child_correct:
  assumes inv: "node_inv q parent" and get: "getEdge parent l = Some n"
    and nr: "\<not> r \<longrightarrow> prefix parent \<noteq> []"
    and res: "discard_child r parent l n = Inr (cnt, p')"
  shows "node_inv q p' \<and> set (entries p') = set (entries parent) - set (entries n)
         \<and> cnt = length (entries n)
         \<and> (r \<longrightarrow> prefix p' = prefix parent)
         \<and> (prefix parent \<noteq> [] \<longrightarrow> prefix p' \<noteq> [] \<and> hd (prefix p') = hd (prefix parent))"
proof -
  note cinv = getEdge_child[OF inv get]
  define n0 :: "'a node" where "n0 = Node None (prefix n) []"
  define parent1 where "parent1 = setChild parent l n0"
  have n0: "node_inv (q @ prefix parent) n0" "prefix n0 \<noteq> []" "hd (prefix n0) = l"
    "entries n0 = []"
    using cinv unfolding n0_def by simp_all
  have cnt: "cnt = length (entries n)"
    using res unfolding discard_child_def Let_def by (auto simp: recursiveWalk_count)
  have res': "(if \<not> r \<and> length (edges parent1) = 1 \<and> \<not> isLeaf parent1
               then mergeChild parent1 else Inr parent1) = Inr p'"
    using res unfolding discard_child_def Let_def parent1_def n0_def by auto
  have p1_inv: "node_inv q parent1" unfolding parent1_def
    by (rule node_inv_setChild[OF inv get n0(1-3)])
  have disj: "x \<notin> set (entries (delEdge parent l))" if "x \<in> set (entries n)" for x
  proof
    assume a: "x \<in> set (entries (delEdge parent l))"
    from entries_of_child[OF inv get that] obtain w where
      "fst x = q @ prefix parent @ prefix n @ w" by blast
    then have "fst x = q @ prefix parent @ l # (tl (prefix n) @ w)"
      using cinv(2,3) by (cases "prefix n") auto
    then show False using entries_delEdge_keys[OF inv get a] by blast
  qed
  have p1_e: "set (entries parent1) = set (entries parent) - set (entries n)"
    unfolding parent1_def entries_setChild[OF inv get] entries_with_child[OF inv get] n0(4)
    using disj by auto
  have p1_p: "prefix parent1 = prefix parent" unfolding parent1_def by simp
  show ?thesis
  proof (cases "\<not> r \<and> length (edges parent1) = 1 \<and> \<not> isLeaf parent1")
    case True
    then have "prefix parent1 \<noteq> []" "leaf parent1 = None" "length (edges parent1) = 1"
      using nr p1_p by (auto simp: isLeaf_def)
    from mergeChild_correct[OF p1_inv this(2,3,1)] res' True p1_e p1_p cnt
    show ?thesis by auto
  next
    case False
    then have "p' = parent1" using res' by (auto split: if_splits)
    then show ?thesis using p1_inv p1_e p1_p cnt by simp
  qed
qed

lemma deletePrefix_desc_correct:
  "node_inv q n \<Longrightarrow> pfx \<noteq> [] \<Longrightarrow> (\<not> r \<longrightarrow> prefix n \<noteq> [])
   \<Longrightarrow> deletePrefix_desc r n pfx = Inr (cnt, n')
   \<Longrightarrow> node_inv q n'
       \<and> set (entries n') = {x \<in> set (entries n). \<not> HasPrefix (fst x) (q @ prefix n @ pfx)}
       \<and> cnt = card {x \<in> set (entries n). HasPrefix (fst x) (q @ prefix n @ pfx)}
       \<and> (r \<longrightarrow> prefix n' = prefix n)
       \<and> (prefix n \<noteq> [] \<longrightarrow> prefix n' \<noteq> [] \<and> hd (prefix n') = hd (prefix n))"
proof (induction r n pfx arbitrary: q cnt n' rule: deletePrefix_desc.induct)
  case (1 r n pfx)
  note inv = "1.prems"(1) and ne = "1.prems"(2) and nr = "1.prems"(3) and res = "1.prems"(4)
  obtain l s' where sl: "pfx = l # s'" using ne by (cases pfx) auto
  let ?D = "{x \<in> set (entries n). HasPrefix (fst x) (q @ prefix n @ pfx)}"
  have shape: "\<exists>w. fst x = q @ prefix n @ l # w" if "x \<in> ?D" for x
  proof -
    from that obtain w where "fst x = (q @ prefix n @ pfx) @ w" using HasPrefix_iff by blast
    then have "fst x = q @ prefix n @ l # (s' @ w)" using sl by simp
    then show ?thesis ..
  qed
  have unchanged: ?case if "cnt = 0" "n' = n" "?D = {}"
  proof -
    have "{x \<in> set (entries n). \<not> HasPrefix (fst x) (q @ prefix n @ pfx)} = set (entries n)"
      using that(3) by auto
    then show ?thesis using that inv by simp
  qed
  show ?case
  proof (cases "getEdge n (hd pfx)")
    case None
    have r0: "cnt = 0" "n' = n" using res None by (subst (asm) deletePrefix_desc.simps, simp)+
    have "l \<notin> fst ` set (edges n)"
      using getEdge_None_sorted[OF node_inv_sorted_edges[OF inv]] None sl by simp
    moreover have "l \<in> fst ` set (edges n)" if "x \<in> ?D" for x
    proof -
      from shape[OF that] obtain w where w: "fst x = q @ prefix n @ l # w" ..
      have "(q @ prefix n @ l # w, snd x) \<in> set (entries n)" using that w by (metis (mono_tags, lifting) mem_Collect_eq prod.collapse)
      then show ?thesis using entries_child_iff[OF inv, of l w "snd x"] by force
    qed
    ultimately have "?D = {}" by blast
    then show ?thesis using unchanged r0 by simp
  next
    case (Some c)
    have Some': "getEdge n l = Some c" using Some sl by simp
    note cinv = getEdge_child[OF inv Some']
    have in_c: "x \<in> set (entries c)" if "x \<in> ?D" for x
    proof -
      from shape[OF that] obtain w where "fst x = q @ prefix n @ l # w" ..
      then show ?thesis using entries_in_child[OF inv Some'] that by blast
    qed
    have rest: "\<not> HasPrefix (fst x) (q @ prefix n @ pfx)" if "x \<in> set (entries (delEdge n l))" for x
    proof
      assume "HasPrefix (fst x) (q @ prefix n @ pfx)"
      then obtain w where "fst x = (q @ prefix n @ pfx) @ w" using HasPrefix_iff by blast
      then have "fst x = q @ prefix n @ l # (s' @ w)" using sl by simp
      then show False using entries_delEdge_keys[OF inv Some' that] by blast
    qed
    show ?thesis
    proof (cases "\<not> HasPrefix (prefix c) pfx \<and> \<not> HasPrefix pfx (prefix c)")
      case True
      have r0: "cnt = 0" "n' = n"
        using res Some True by (subst (asm) deletePrefix_desc.simps, simp)+
      have "False" if "x \<in> ?D" for x
      proof -
        from entries_of_child[OF inv Some' in_c[OF that]] obtain w where
          w: "fst x = q @ prefix n @ prefix c @ w" by blast
        from that obtain w' where "fst x = (q @ prefix n @ pfx) @ w'" using HasPrefix_iff by blast
        then have "prefix c @ w = pfx @ w'" using w by simp
        from HasPrefix_append_cases[OF this] True show False by blast
      qed
      then have "?D = {}" by blast
      then show ?thesis using unchanged r0 by simp
    next
      case ab: False
      let ?pfx' = "if length (prefix c) > length pfx then drop (length pfx) pfx
                   else drop (length (prefix c)) pfx"
      have hl: "hd pfx = l" using sl by simp
      have ab': "(\<not> HasPrefix (prefix c) pfx \<and> \<not> HasPrefix pfx (prefix c)) = False"
        using ab by simp
      have eq: "deletePrefix_desc r n pfx =
          (if length ?pfx' = 0 then discard_child r n l c
           else ebind (deletePrefix_desc False c ?pfx')
                  (\<lambda>(cnt, child'). Inr (cnt, setChild n l child')))"
        by (subst deletePrefix_desc.simps) (simp add: Some' ab' hl Let_def)
      show ?thesis
      proof (cases "length ?pfx' = 0")
        case True
        have dc: "discard_child r n l c = Inr (cnt, n')"
          using res eq True by simp
        have A: "HasPrefix (prefix c) pfx"
        proof (cases "length (prefix c) > length pfx")
          case True
          then have "\<not> HasPrefix pfx (prefix c)" by (simp add: HasPrefix_def)
          then show ?thesis using ab by simp
        next
          case False
          then have "length pfx = length (prefix c)" using True by simp
          then show ?thesis using ab by (auto simp: HasPrefix_def)
        qed
        then obtain w where w: "prefix c = pfx @ w" using HasPrefix_iff by blast
        have "?D = set (entries c)"
        proof
          show "?D \<subseteq> set (entries c)" using in_c by blast
          show "set (entries c) \<subseteq> ?D"
          proof
            fix x assume x: "x \<in> set (entries c)"
            from entries_of_child[OF inv Some' x] obtain w' where
              "x \<in> set (entries n)" "fst x = q @ prefix n @ prefix c @ w'" by blast
            then have "x \<in> set (entries n)" "fst x = (q @ prefix n @ pfx) @ (w @ w')"
              using w by simp_all
            then show "x \<in> ?D" using HasPrefix_iff by blast
          qed
        qed
        moreover have "{x \<in> set (entries n). \<not> HasPrefix (fst x) (q @ prefix n @ pfx)}
                       = set (entries n) - ?D" by auto
        moreover have "length (entries c) = card (set (entries c))"
          by (rule length_entries_card[OF cinv(1)])
        ultimately show ?thesis using discard_child_correct[OF inv Some' nr dc] by simp
      next
        case False
        then have len: "length (prefix c) < length pfx" by (auto split: if_splits)
        then have p': "?pfx' = drop (length (prefix c)) pfx" by simp
        have "\<not> HasPrefix (prefix c) pfx" using len by (simp add: HasPrefix_def)
        then have B: "HasPrefix pfx (prefix c)" using ab by simp
        have path: "(q @ prefix n) @ prefix c @ drop (length (prefix c)) pfx = q @ prefix n @ pfx"
          using HasPrefix_drop[OF B] by simp
        have "ebind (deletePrefix_desc False c (drop (length (prefix c)) pfx))
                  (\<lambda>(cnt, child'). Inr (cnt, setChild n l child')) = Inr (cnt, n')"
          using res eq False p' by simp
        then obtain c' where rc: "deletePrefix_desc False c (drop (length (prefix c)) pfx) = Inr (cnt, c')"
          and r0: "n' = setChild n l c'"
          by auto
        have ne': "?pfx' \<noteq> []" using False by simp
        have rc': "deletePrefix_desc False c ?pfx' = Inr (cnt, c')" using rc p' by simp
        from "1.IH"[OF Some ab refl False cinv(1) ne' _ rc'] p' cinv(2)
        have ih: "node_inv (q @ prefix n) c'"
          "set (entries c') = {x \<in> set (entries c). \<not> HasPrefix (fst x) (q @ prefix n @ pfx)}"
          "cnt = card {x \<in> set (entries c). HasPrefix (fst x) (q @ prefix n @ pfx)}"
          "prefix c' \<noteq> []" "hd (prefix c') = hd (prefix c)"
          by (simp_all add: HasPrefix_drop[OF B])
        have "node_inv q n'" unfolding r0
          using node_inv_setChild[OF inv Some' ih(1,4)] ih(5) cinv(3) by simp
        moreover have "set (entries n') = {x \<in> set (entries n). \<not> HasPrefix (fst x) (q @ prefix n @ pfx)}"
          unfolding r0 entries_setChild[OF inv Some'] entries_with_child[OF inv Some'] ih(2)
          using rest by auto
        moreover have "?D = {x \<in> set (entries c). HasPrefix (fst x) (q @ prefix n @ pfx)}"
          using in_c entries_with_child[OF inv Some'] by auto
        ultimately show ?thesis using ih(3) r0 by simp
      qed
    qed
  qed
qed


lemma DeletePrefix_correct:
  assumes "tree_inv t" "DeletePrefix t p = Inr (cnt, t')"
  shows "tree_inv t'
         \<and> set (entries (root t')) = {x \<in> set (entries (root t)). \<not> HasPrefix (fst x) p}
         \<and> cnt = int (card {x \<in> set (entries (root t)). HasPrefix (fst x) p})"
proof -
  have inv: "node_inv [] (root t)" and pre: "prefix (root t) = []"
    and sz: "tsize t = int (length (entries (root t)))"
    using assms(1) by (simp_all add: tree_inv_def)
  let ?D = "{x \<in> set (entries (root t)). HasPrefix (fst x) p}"
  let ?K = "{x \<in> set (entries (root t)). \<not> HasPrefix (fst x) p}"
  have main: "node_inv [] (root t') \<and> prefix (root t') = [] \<and> set (entries (root t')) = ?K
              \<and> cnt = int (card ?D) \<and> tsize t' = tsize t - cnt"
  proof (cases "length p = 0")
    case True
    then have pe: "p = []" by simp
    have r: "cnt = int (length (entries (root t)))"
      "t' = \<lparr>root = Node None (prefix (root t)) [], tsize = tsize t - cnt\<rparr>"
      using assms(2) pe by (auto simp: DeletePrefix_def Let_def recursiveWalk_count)
    have "?D = set (entries (root t))" "?K = {}" using pe by (auto simp: HasPrefix_def)
    then show ?thesis using r pre length_entries_card[OF inv] by simp
  next
    case False
    then have ne: "p \<noteq> []" by simp
    from assms(2) False obtain c r where d: "deletePrefix_desc True (root t) p = Inr (c, r)"
      and r: "cnt = int c" "t' = \<lparr>root = r, tsize = tsize t - int c\<rparr>"
      by (auto simp: DeletePrefix_def)
    from deletePrefix_desc_correct[OF inv ne _ d] pre r show ?thesis by simp
  qed
  have "?K = set (entries (root t)) - ?D" by auto
  then have "card ?K = card (set (entries (root t))) - card ?D"
    by (simp add: card_Diff_subset)
  moreover have "card ?D \<le> card (set (entries (root t)))" by (simp add: card_mono)
  ultimately have "int (card ?K) = tsize t - cnt"
    using main sz length_entries_card[OF inv] by simp
  then have "tsize t' = int (length (entries (root t')))"
    using main length_entries_card[of "[]" "root t'"] by simp
  then show ?thesis using main by (simp add: tree_inv_def)
qed

lemma tree_inv_New: "tree_inv New"
  by (simp add: tree_inv_def New_def)

lemma apply_op_inv: "tree_inv t \<Longrightarrow> apply_op t x = Inr t' \<Longrightarrow> tree_inv t'"
proof (cases x)
  case (OpInsert s v)
  assume "tree_inv t" "apply_op t x = Inr t'"
  then show ?thesis using OpInsert Insert_correct[of t s v] by auto
next
  case (OpDelete s)
  assume "tree_inv t" "apply_op t x = Inr t'"
  then show ?thesis using OpDelete Delete_correct[of t s] by auto
next
  case (OpDeletePrefix s)
  assume "tree_inv t" "apply_op t x = Inr t'"
  then show ?thesis using OpDeletePrefix DeletePrefix_correct[of t s] by auto
qed

lemma run_inv: "tree_inv t \<Longrightarrow> run t ops = Inr t' \<Longrightarrow> tree_inv t'"
proof (induction ops arbitrary: t)
  case Nil
  then show ?case by simp
next
  case (Cons x ops)
  from Cons.prems(2) obtain t1 where "apply_op t x = Inr t1" "run t1 ops = Inr t'" by auto
  then show ?case using Cons.IH[of t1] apply_op_inv[OF Cons.prems(1)] by blast
qed

lemma reachable_inv: "run New ops = Inr t \<Longrightarrow> tree_inv t"
  using run_inv[OF tree_inv_New] .

section \<open>Get after each operation, Len and Walk\<close>

lemma option_eq_iff: "(\<And>y. a = Some y \<longleftrightarrow> b = Some y) \<Longrightarrow> a = b"
  by (cases a; cases b) auto

lemma Get_Insert:
  assumes "tree_inv t" "Insert t s v = Inr (old, t')"
  shows "Get t' k = (if k = s then Some v else Get t k)"
proof (rule option_eq_iff)
  fix y
  from Insert_correct[OF assms] have t': "tree_inv t'"
    and e: "set (entries (root t')) = {x \<in> set (entries (root t)). fst x \<noteq> s} \<union> {(s, v)}"
    by simp_all
  show "Get t' k = Some y \<longleftrightarrow> (if k = s then Some v else Get t k) = Some y"
    unfolding Get_entries[OF t'] e using Get_entries[OF assms(1), of k y] by auto
qed

lemma Get_Delete:
  assumes "tree_inv t" "Delete t s = Inr (old, t')"
  shows "Get t' k = (if k = s then None else Get t k)"
proof (rule option_eq_iff)
  fix y
  from Delete_correct[OF assms] have t': "tree_inv t'"
    and e: "set (entries (root t')) = {x \<in> set (entries (root t)). fst x \<noteq> s}"
    by simp_all
  show "Get t' k = Some y \<longleftrightarrow> (if k = s then None else Get t k) = Some y"
    unfolding Get_entries[OF t'] e using Get_entries[OF assms(1), of k y] by auto
qed

lemma Get_DeletePrefix:
  assumes "tree_inv t" "DeletePrefix t p = Inr (cnt, t')"
  shows "Get t' k = (if HasPrefix k p then None else Get t k)"
proof (rule option_eq_iff)
  fix y
  from DeletePrefix_correct[OF assms] have t': "tree_inv t'"
    and e: "set (entries (root t')) = {x \<in> set (entries (root t)). \<not> HasPrefix (fst x) p}"
    by simp_all
  show "Get t' k = Some y \<longleftrightarrow> (if HasPrefix k p then None else Get t k) = Some y"
    unfolding Get_entries[OF t'] e using Get_entries[OF assms(1), of k y] by auto
qed

lemma present_keys:
  assumes "tree_inv t"
  shows "{k. Get t k \<noteq> None} = fst ` set (entries (root t))"
proof -
  have "Get t k \<noteq> None \<longleftrightarrow> k \<in> fst ` set (entries (root t))" for k
  proof
    assume "Get t k \<noteq> None"
    then obtain y where "Get t k = Some y" by auto
    then have "(k, y) \<in> set (entries (root t))" using Get_entries[OF assms] by simp
    then show "k \<in> fst ` set (entries (root t))" by force
  next
    assume "k \<in> fst ` set (entries (root t))"
    then obtain y where "(k, y) \<in> set (entries (root t))" by auto
    then show "Get t k \<noteq> None" using Get_entries[OF assms, of k y] by simp
  qed
  then show ?thesis by auto
qed

lemma tsize_present_keys:
  assumes "tree_inv t"
  shows "tsize t = int (card {k. Get t k \<noteq> None})"
proof -
  have inv: "node_inv [] (root t)" using assms by (simp add: tree_inv_def)
  have "card (fst ` set (entries (root t))) = length (entries (root t))"
    using node_inv_distinct[OF inv] distinct_card[of "map fst (entries (root t))"] by simp
  then show ?thesis using assms present_keys[OF assms] by (simp add: tree_inv_def)
qed

lemma recursiveWalk_never_stop_aux:
  "\<forall>st k v. \<not> fst (fn st k v) \<Longrightarrow>
     recursiveWalk n fn st = (False, fold (\<lambda>kv st. snd (fn st (fst kv) (snd kv))) (entries n) st)"
  "\<forall>st k v. \<not> fst (fn st k v) \<Longrightarrow>
     walkEdges es fn st = (False, fold (\<lambda>kv st. snd (fn st (fst kv) (snd kv)))
                                   (concat (map (\<lambda>e. entries (snd e)) es)) st)"
proof (induction n fn st and es fn st rule: recursiveWalk_walkEdges.induct)
  case (1 n fn st)
  show ?case
  proof (cases "leaf n")
    case None
    from "1.IH"(1)[OF None "1.prems"] None show ?thesis
      by (subst recursiveWalk.simps, subst entries.simps) simp
  next
    case (Some lf)
    obtain st1 where f: "fn st (key lf) (val lf) = (False, st1)"
      using "1.prems" by (metis fst_conv surj_pair)
    from "1.IH"(2)[OF Some f[symmetric] _ "1.prems"] Some f show ?thesis
      by (subst recursiveWalk.simps, subst entries.simps) simp
  qed
next
  case (2 fn st)
  then show ?case by simp
next
  case (3 e es fn st)
  obtain st1 where a: "recursiveWalk (snd e) fn st = (False, st1)"
    "st1 = fold (\<lambda>kv st. snd (fn st (fst kv) (snd kv))) (entries (snd e)) st"
    using 3 by simp
  from "3.IH"(2)[OF a(1)[symmetric] _ "3.prems"] a show ?case by simp
qed

lemma Walk_never_stop:
  "\<forall>st k v. \<not> fst (fn st k v) \<Longrightarrow>
     Walk t fn st = fold (\<lambda>kv st. snd (fn st (fst kv) (snd kv))) (entries (root t)) st"
  by (simp add: Walk_def recursiveWalk_never_stop_aux)

lemma Walk_record: "Walk t recordFn [] = entries (root t)"
  by (simp add: Walk_def recursiveWalk_record)

lemma run_append: "run t (xs @ ys) = ebind (run t xs) (\<lambda>t'. run t' ys)"
  by (induction xs arbitrary: t) (auto simp: ebind_def split: sum.splits)

lemma run_inserts:
  assumes "tree_inv t0" "run t0 (map (\<lambda>(k, v). OpInsert k v) kvs) = Inr t"
  shows "Get t k = (case map_of (rev kvs) k of Some v \<Rightarrow> Some v | None \<Rightarrow> Get t0 k)"
  using assms
proof (induction kvs arbitrary: t0)
  case Nil
  then show ?case by simp
next
  case (Cons kv kvs)
  obtain s v where kv: "kv = (s, v)" by (cases kv)
  from Cons.prems(2) kv obtain old t1 where i: "Insert t0 s v = Inr (old, t1)"
    and r: "run t1 (map (\<lambda>(k, v). OpInsert k v) kvs) = Inr t" by auto
  have t1: "tree_inv t1" using Insert_correct[OF Cons.prems(1) i] by simp
  have "Get t k = (case map_of (rev kvs) k of Some v \<Rightarrow> Some v | None \<Rightarrow> Get t1 k)"
    by (rule Cons.IH[OF t1 r])
  then show ?case using Get_Insert[OF Cons.prems(1) i, of k] kv
    by (auto simp: map_add_def split: option.splits)
qed

section \<open>WalkPrefix and LongestPrefix\<close>

lemma entries_split_child:
  assumes "node_inv q n" "getEdge n l = Some c"
  shows "\<exists>A B. entries n = A @ entries c @ B \<and> set A \<union> set B = set (entries (delEdge n l))"
proof -
  from child_context[OF assms] obtain xs ys where c: "edges n = xs @ (l, c) # ys"
    "delEdge n l = Node (leaf n) (prefix n) (xs @ ys)" by blast
  let ?L = "case leaf n of None \<Rightarrow> [] | Some lf \<Rightarrow> [(key lf, val lf)]"
  let ?A = "?L @ concat (map (\<lambda>e. entries (snd e)) xs)"
  let ?B = "concat (map (\<lambda>e. entries (snd e)) ys)"
  have "entries n = ?A @ entries c @ ?B" using c(1) by (subst entries.simps) simp
  moreover have "set ?A \<union> set ?B = set (entries (delEdge n l))" unfolding c(2) by auto
  ultimately show ?thesis by blast
qed

lemma filter_entries_child:
  assumes "node_inv q n" "getEdge n l = Some c"
    and "\<And>x. P x \<Longrightarrow> \<exists>w. fst x = q @ prefix n @ l # w"
  shows "filter P (entries n) = filter P (entries c)"
proof -
  from entries_split_child[OF assms(1,2)] obtain A B where
    e: "entries n = A @ entries c @ B" "set A \<union> set B = set (entries (delEdge n l))" by blast
  have "\<not> P x" if "x \<in> set A \<union> set B" for x
  proof
    assume "P x"
    then obtain w where "fst x = q @ prefix n @ l # w" using assms(3) by blast
    moreover have "x \<in> set (entries (delEdge n l))" using that e(2) by simp
    ultimately show False using entries_delEdge_keys[OF assms(1,2)] by blast
  qed
  then have "filter P A = []" "filter P B = []" by (auto simp: filter_empty_conv)
  then show ?thesis unfolding e(1) by simp
qed

lemma entries_no_edge:
  assumes "node_inv q n" "getEdge n l = None" "x \<in> set (entries n)"
  shows "fst x \<noteq> q @ prefix n @ l # w"
proof
  assume "fst x = q @ prefix n @ l # w"
  then have "(q @ prefix n @ l # w, snd x) \<in> set (entries n)"
    using assms(3) by (metis prod.collapse)
  then have "l \<in> fst ` set (edges n)"
    using entries_child_iff[OF assms(1), of l w "snd x"] by force
  then show False
    using getEdge_None_sorted[OF node_inv_sorted_edges[OF assms(1)] assms(2)] by simp
qed

lemma walkPrefix_node_record:
  "node_inv q n \<Longrightarrow> fn = recordFn \<Longrightarrow>
   walkPrefix_node n search fn acc
     = acc @ filter (\<lambda>x. HasPrefix (fst x) (q @ prefix n @ search)) (entries n)"
proof (induction n search fn acc arbitrary: q rule: walkPrefix_node.induct)
  case (1 n search fn st)
  note inv = "1.prems"(1) and fn = "1.prems"(2)
  let ?P = "\<lambda>x. HasPrefix (fst x) (q @ prefix n @ search)"
  show ?case
  proof (cases "length search = 0")
    case True
    have "?P x" if "x \<in> set (entries n)" for x
    proof -
      have "(fst x, snd x) \<in> set (entries n)" using that by simp
      from node_inv_keys[OF inv this] True show ?thesis by (auto simp: HasPrefix_iff)
    qed
    then have "filter ?P (entries n) = entries n" by (simp add: filter_id_conv)
    then show ?thesis using True fn
      by (subst walkPrefix_node.simps) (simp add: recursiveWalk_record)
  next
    case ne: False
    then obtain l s' where sl: "search = l # s'" by (cases search) auto
    have shape: "\<exists>w. fst x = q @ prefix n @ l # w" if "?P x" for x
    proof -
      from that obtain w where "fst x = (q @ prefix n @ search) @ w" using HasPrefix_iff by blast
      then have "fst x = q @ prefix n @ l # (s' @ w)" using sl by simp
      then show ?thesis ..
    qed
    show ?thesis
    proof (cases "getEdge n (hd search)")
      case None
      then have "getEdge n l = None" using sl by simp
      then have "\<not> ?P x" if "x \<in> set (entries n)" for x
        using entries_no_edge[OF inv _ that] shape[of x] by blast
      then have "filter ?P (entries n) = []" by (simp add: filter_empty_conv)
      then show ?thesis using ne None by (subst walkPrefix_node.simps) simp
    next
      case (Some c)
      have Some': "getEdge n l = Some c" using Some sl by simp
      note cinv = getEdge_child[OF inv Some']
      have f: "filter ?P (entries n) = filter ?P (entries c)"
        by (rule filter_entries_child[OF inv Some']) (rule shape)
      show ?thesis
      proof (cases "HasPrefix search (prefix c)")
        case True
        have "walkPrefix_node c (drop (length (prefix c)) search) fn st
              = st @ filter (\<lambda>x. HasPrefix (fst x)
                    ((q @ prefix n) @ prefix c @ drop (length (prefix c)) search)) (entries c)"
          by (rule "1.IH"[OF ne Some True cinv(1) fn])
        then show ?thesis using ne Some True f HasPrefix_drop[OF True]
          by (subst walkPrefix_node.simps) simp
      next
        case nsp: False
        show ?thesis
        proof (cases "HasPrefix (prefix c) search")
          case True
          then obtain u where u: "prefix c = search @ u" using HasPrefix_iff by blast
          have "?P x" if "x \<in> set (entries c)" for x
          proof -
            from entries_of_child[OF inv Some' that] obtain w where
              "fst x = q @ prefix n @ prefix c @ w" by blast
            then have "fst x = (q @ prefix n @ search) @ (u @ w)" using u by simp
            then show ?thesis using HasPrefix_iff by blast
          qed
          then have "filter ?P (entries c) = entries c" by (simp add: filter_id_conv)
          then show ?thesis using ne Some nsp True f fn
            by (subst walkPrefix_node.simps) (simp add: recursiveWalk_record)
        next
          case False
          have "\<not> ?P x" if "x \<in> set (entries c)" for x
          proof
            assume "?P x"
            then obtain w' where "fst x = (q @ prefix n @ search) @ w'" using HasPrefix_iff by blast
            moreover from entries_of_child[OF inv Some' that] obtain w where
              "fst x = q @ prefix n @ prefix c @ w" by blast
            ultimately have "prefix c @ w = search @ w'" by simp
            from HasPrefix_append_cases[OF this] nsp False show False by blast
          qed
          then have "filter ?P (entries c) = []" by (simp add: filter_empty_conv)
          then show ?thesis using ne Some nsp False f
            by (subst walkPrefix_node.simps) simp
        qed
      qed
    qed
  qed
qed

lemma WalkPrefix_record:
  "tree_inv t \<Longrightarrow> WalkPrefix t p recordFn [] = filter (\<lambda>x. HasPrefix (fst x) p) (entries (root t))"
  using walkPrefix_node_record[of "[]" "root t" recordFn p "[]"]
  by (simp add: WalkPrefix_def tree_inv_def)

lemma walkPrefix_node_never_stop:
  "\<forall>st k v. \<not> fst (fn st k v) \<Longrightarrow>
     walkPrefix_node n search fn st
       = fold (\<lambda>kv st. snd (fn st (fst kv) (snd kv))) (walkPrefix_node n search recordFn []) st"
proof (induction n search fn st rule: walkPrefix_node.induct)
  case (1 n search fn st)
  note ns = "1.prems"
  show ?case
  proof (cases "length search = 0")
    case True
    then show ?thesis
      by (subst walkPrefix_node.simps, subst (2) walkPrefix_node.simps)
         (simp add: recursiveWalk_never_stop_aux[OF ns] recursiveWalk_record)
  next
    case ne: False
    show ?thesis
    proof (cases "getEdge n (hd search)")
      case None
      then show ?thesis using ne
        by (subst walkPrefix_node.simps, subst (2) walkPrefix_node.simps) simp
    next
      case (Some c)
      show ?thesis
      proof (cases "HasPrefix search (prefix c)")
        case True
        from "1.IH"[OF ne Some True ns] show ?thesis using ne Some True
          by (subst walkPrefix_node.simps, subst (2) walkPrefix_node.simps) simp
      next
        case False
        then show ?thesis using ne Some
          by (subst walkPrefix_node.simps, subst (2) walkPrefix_node.simps)
             (simp add: recursiveWalk_never_stop_aux[OF ns] recursiveWalk_record)
      qed
    qed
  qed
qed


lemma HasPrefix_same_append: "HasPrefix (p @ a) (p @ b) \<longleftrightarrow> HasPrefix a b"
  by (auto simp: HasPrefix_iff)

lemma longestPrefix_node_leaf_only:
  assumes inv: "node_inv q n"
    and cands: "\<And>x. x \<in> set (entries n) \<Longrightarrow> HasPrefix k (fst x) \<Longrightarrow> fst x = q @ prefix n"
    and k: "HasPrefix k (q @ prefix n)"
    and last': "last' = (if isLeaf n then leaf n else lastLeaf)"
  shows "({x \<in> set (entries n). HasPrefix k (fst x)} = {} \<longrightarrow> last' = lastLeaf)
       \<and> ({x \<in> set (entries n). HasPrefix k (fst x)} \<noteq> {} \<longrightarrow>
            (\<exists>lf. last' = Some lf \<and> (key lf, val lf) \<in> set (entries n) \<and> HasPrefix k (key lf)
               \<and> (\<forall>x \<in> set (entries n). HasPrefix k (fst x) \<longrightarrow> length (fst x) \<le> length (key lf))))"
proof (cases "leaf n")
  case None
  have "\<not> HasPrefix k (fst x)" if "x \<in> set (entries n)" for x
  proof
    assume "HasPrefix k (fst x)"
    then have "(q @ prefix n, snd x) \<in> set (entries n)"
      using cands[OF that] that by (metis prod.collapse)
    then show False using entries_path_iff[OF inv, of "snd x"] None by simp
  qed
  then show ?thesis using None last' by (auto simp: isLeaf_def)
next
  case (Some lf)
  have kl: "key lf = q @ prefix n" by (rule node_inv_leaf[OF inv Some])
  have "(key lf, val lf) \<in> set (entries n)"
    using entries_path_iff[OF inv, of "val lf"] Some kl by simp
  moreover have "length (fst x) \<le> length (key lf)"
    if "x \<in> set (entries n)" "HasPrefix k (fst x)" for x
    using cands[OF that] kl by simp
  ultimately show ?thesis using Some last' k kl by (auto simp: isLeaf_def)
qed

lemma longestPrefix_node_correct:
  "node_inv q n \<Longrightarrow> k = q @ prefix n @ search \<Longrightarrow>
   ({x \<in> set (entries n). HasPrefix k (fst x)} = {}
       \<longrightarrow> longestPrefix_node lastLeaf n search = lastLeaf)
   \<and> ({x \<in> set (entries n). HasPrefix k (fst x)} \<noteq> {} \<longrightarrow>
        (\<exists>lf. longestPrefix_node lastLeaf n search = Some lf
            \<and> (key lf, val lf) \<in> set (entries n) \<and> HasPrefix k (key lf)
            \<and> (\<forall>x \<in> set (entries n). HasPrefix k (fst x) \<longrightarrow> length (fst x) \<le> length (key lf))))"
proof (induction lastLeaf n search arbitrary: q rule: longestPrefix_node.induct)
  case (1 lastLeaf n search)
  note inv = "1.prems"(1) and k = "1.prems"(2)
  define last' where "last' = (if isLeaf n then leaf n else lastLeaf)"
  have kp: "HasPrefix k (q @ prefix n)" using k by (simp add: HasPrefix_iff)
  note base = longestPrefix_node_leaf_only[OF inv _ kp last'_def]
  have rel: "\<exists>r. fst x = q @ prefix n @ r \<and> HasPrefix search r"
    if "x \<in> set (entries n)" "HasPrefix k (fst x)" for x
  proof -
    have "(fst x, snd x) \<in> set (entries n)" using that(1) by simp
    from node_inv_keys[OF inv this] obtain r where r: "fst x = q @ prefix n @ r" ..
    have "HasPrefix ((q @ prefix n) @ search) ((q @ prefix n) @ r)" using that(2) r k by simp
    then have "HasPrefix search r" by (simp only: HasPrefix_same_append)
    then show ?thesis using r by blast
  qed
  show ?case
  proof (cases "length search = 0")
    case True
    have res: "longestPrefix_node lastLeaf n search = last'"
      using True by (subst longestPrefix_node.simps) (simp add: last'_def Let_def)
    have "fst x = q @ prefix n" if "x \<in> set (entries n)" "HasPrefix k (fst x)" for x
      using rel[OF that] True by (auto simp: HasPrefix_def)
    from base[OF this] show ?thesis unfolding res by simp
  next
    case ne: False
    then obtain l s' where sl: "search = l # s'" by (cases search) auto
    have rel': "fst x = q @ prefix n \<or> (\<exists>w. fst x = q @ prefix n @ l # w)"
      if "x \<in> set (entries n)" "HasPrefix k (fst x)" for x
    proof -
      from rel[OF that] obtain r where r: "fst x = q @ prefix n @ r" "HasPrefix search r" by blast
      show ?thesis
      proof (cases r)
        case Nil
        then show ?thesis using r by simp
      next
        case (Cons a w)
        then have "a = l" using r(2) sl by (auto simp: HasPrefix_def)
        then show ?thesis using r(1) Cons by blast
      qed
    qed
    show ?thesis
    proof (cases "getEdge n (hd search)")
      case None
      have res: "longestPrefix_node lastLeaf n search = last'"
        using ne None by (subst longestPrefix_node.simps) (simp add: last'_def Let_def)
      have "getEdge n l = None" using None sl by simp
      then have "fst x = q @ prefix n" if "x \<in> set (entries n)" "HasPrefix k (fst x)" for x
        using rel'[OF that] entries_no_edge[OF inv _ that(1)] by blast
      from base[OF this] show ?thesis unfolding res by simp
    next
      case (Some c)
      have Some': "getEdge n l = Some c" using Some sl by simp
      note cinv = getEdge_child[OF inv Some']
      have in_c: "fst x = q @ prefix n \<or> (x \<in> set (entries c) \<and> HasPrefix search (prefix c))"
        if xin: "x \<in> set (entries n)" "HasPrefix k (fst x)" for x
      proof (cases "fst x = q @ prefix n")
        case False
        then obtain w where w: "fst x = q @ prefix n @ l # w" using rel'[OF xin] by blast
        have xc: "x \<in> set (entries c)" by (rule entries_in_child[OF inv Some' xin(1) w])
        from entries_of_child[OF inv Some' xc] obtain u where
          "fst x = (q @ prefix n) @ prefix c @ u" by auto
        then have "HasPrefix ((q @ prefix n) @ search) ((q @ prefix n) @ prefix c @ u)"
          using xin(2) k by simp
        then have "HasPrefix search (prefix c @ u)" by (simp only: HasPrefix_same_append)
        then have "HasPrefix search (prefix c)" by (auto simp: HasPrefix_iff)
        then show ?thesis using xc by simp
      qed simp
      show ?thesis
      proof (cases "HasPrefix search (prefix c)")
        case False
        have res: "longestPrefix_node lastLeaf n search = last'"
          using ne Some False by (subst longestPrefix_node.simps) (simp add: last'_def Let_def)
        have "fst x = q @ prefix n" if "x \<in> set (entries n)" "HasPrefix k (fst x)" for x
          using in_c[OF that] False by blast
        from base[OF this] show ?thesis unfolding res by simp
      next
        case True
        let ?s = "drop (length (prefix c)) search"
        let ?C = "{x \<in> set (entries c). HasPrefix k (fst x)}"
        have res: "longestPrefix_node lastLeaf n search = longestPrefix_node last' c ?s"
          using ne Some True by (subst longestPrefix_node.simps) (simp add: last'_def Let_def)
        have k': "k = (q @ prefix n) @ prefix c @ ?s" using k HasPrefix_drop[OF True] by simp
        have ih: "(?C = {} \<longrightarrow> longestPrefix_node last' c ?s = last')
          \<and> (?C \<noteq> {} \<longrightarrow> (\<exists>lf. longestPrefix_node last' c ?s = Some lf
            \<and> (key lf, val lf) \<in> set (entries c) \<and> HasPrefix k (key lf)
            \<and> (\<forall>x \<in> set (entries c). HasPrefix k (fst x) \<longrightarrow> length (fst x) \<le> length (key lf))))"
          using "1.IH"[OF _ ne Some True cinv(1) k'] by (simp add: last'_def)
        show ?thesis
        proof (cases "?C = {}")
          case True
          have r2: "longestPrefix_node lastLeaf n search = last'" using res ih True by simp
          have "fst x = q @ prefix n" if "x \<in> set (entries n)" "HasPrefix k (fst x)" for x
            using in_c[OF that] that(2) True by blast
          from base[OF this] show ?thesis unfolding r2 by simp
        next
          case False
          then obtain lf where lf: "longestPrefix_node last' c ?s = Some lf"
            "(key lf, val lf) \<in> set (entries c)" "HasPrefix k (key lf)"
            "\<forall>x \<in> set (entries c). HasPrefix k (fst x) \<longrightarrow> length (fst x) \<le> length (key lf)"
            using ih by blast
          from entries_of_child[OF inv Some' lf(2)] obtain u where
            mem: "(key lf, val lf) \<in> set (entries n)" and ku: "key lf = q @ prefix n @ prefix c @ u"
            by auto
          have "length (fst x) \<le> length (key lf)"
            if "x \<in> set (entries n)" "HasPrefix k (fst x)" for x
            using in_c[OF that] lf(4) that(2) ku by auto
          moreover have "{x \<in> set (entries n). HasPrefix k (fst x)} \<noteq> {}"
            using mem lf(3) by auto
          ultimately show ?thesis unfolding res using lf mem by auto
        qed
      qed
    qed
  qed
qed

lemma LongestPrefix_correct:
  assumes "tree_inv t"
  shows "case LongestPrefix t k of
           None \<Rightarrow> (\<forall>m v. Get t m = Some v \<longrightarrow> \<not> HasPrefix k m)
         | Some (m, v) \<Rightarrow> Get t m = Some v \<and> HasPrefix k m
              \<and> (\<forall>m' v'. Get t m' = Some v' \<and> HasPrefix k m' \<longrightarrow> length m' \<le> length m)"
proof -
  have inv: "node_inv [] (root t)" and pre: "prefix (root t) = []"
    using assms by (simp_all add: tree_inv_def)
  let ?C = "{x \<in> set (entries (root t)). HasPrefix k (fst x)}"
  have k: "k = [] @ prefix (root t) @ k" using pre by simp
  note c = longestPrefix_node_correct[OF inv k, of None]
  show ?thesis
  proof (cases "?C = {}")
    case True
    then have "longestPrefix_node None (root t) k = None" using c by simp
    moreover have "\<not> HasPrefix k m" if "Get t m = Some v" for m v
      using that True Get_entries[OF assms, of m v] by auto
    ultimately show ?thesis by (simp add: LongestPrefix_def)
  next
    case False
    then obtain lf where lf: "longestPrefix_node None (root t) k = Some lf"
      "(key lf, val lf) \<in> set (entries (root t))" "HasPrefix k (key lf)"
      "\<forall>x \<in> set (entries (root t)). HasPrefix k (fst x) \<longrightarrow> length (fst x) \<le> length (key lf)"
      using c by blast
    have "length m' \<le> length (key lf)" if "Get t m' = Some v'" "HasPrefix k m'" for m' v'
      using that lf(4) Get_entries[OF assms, of m' v'] by auto
    then have "\<forall>m' v'. Get t m' = Some v' \<and> HasPrefix k m' \<longrightarrow> length m' \<le> length (key lf)"
      by blast
    then show ?thesis using lf(1-3) Get_entries[OF assms, of "key lf" "val lf"]
      by (simp add: LongestPrefix_def)
  qed
qed

section \<open>Minimum and Maximum without DeletePrefix\<close>

declare compact.simps [simp del]

lemma compact_Node [simp]:
  "compact (Node lf pre es) \<longleftrightarrow>
     (\<forall>e \<in> set es. (isLeaf (snd e) \<or> 2 \<le> length (edges (snd e))) \<and> compact (snd e))"
  by (subst compact.simps) simp

lemma compact_edges: "compact n' = compact (Node lf pre (edges n'))"
  by (subst compact.simps) simp

lemma compact_nonempty_aux:
  "compact n \<Longrightarrow> isLeaf n \<or> edges n \<noteq> [] \<Longrightarrow> entries n \<noteq> []"
proof (induction n rule: node_induct)
  case (Node lf pre es)
  show ?case
  proof (cases lf)
    case (Some l)
    then show ?thesis by simp
  next
    case None
    then obtain e es' where e: "es = e # es'" using Node.prems(2) by (cases es) (auto simp: isLeaf_def)
    then have "compact (snd e)" "isLeaf (snd e) \<or> 2 \<le> length (edges (snd e))"
      using Node.prems(1) by simp_all
    moreover have "edges (snd e) \<noteq> []" if "2 \<le> length (edges (snd e))"
      using that by (cases "edges (snd e)") auto
    ultimately have "entries (snd e) \<noteq> []" using Node.IH[of e] e by auto
    then show ?thesis using e by simp
  qed
qed

lemma compact_child_nonempty:
  assumes "compact n" "e \<in> set (edges n)"
  shows "entries (snd e) \<noteq> []"
proof -
  have "compact (snd e)" "isLeaf (snd e) \<or> 2 \<le> length (edges (snd e))"
    using assms by (subst (asm) compact.simps, simp)+
  moreover have "edges (snd e) \<noteq> []" if "2 \<le> length (edges (snd e))"
    using that by (cases "edges (snd e)") auto
  ultimately show ?thesis using compact_nonempty_aux[of "snd e"] by auto
qed

lemma minimum_node_compact:
  "compact n \<Longrightarrow> minimum_node n = (case entries n of [] \<Rightarrow> None | x # _ \<Rightarrow> Some x)"
proof (induction n rule: minimum_node.induct)
  case (1 n)
  show ?case
  proof (cases "leaf n")
    case (Some lf)
    then show ?thesis by (subst minimum_node.simps, subst entries.simps) simp
  next
    case None
    show ?thesis
    proof (cases "length (edges n) > 0")
      case False
      then show ?thesis using None by (subst minimum_node.simps, subst entries.simps) simp
    next
      case True
      then obtain e es where e: "edges n = e # es" by (cases "edges n") auto
      have ce: "compact (snd e)" using "1.prems" e by (subst (asm) compact.simps) simp
      have ne: "entries (snd e) \<noteq> []" using compact_child_nonempty[OF "1.prems", of e] e by simp
      have "minimum_node (snd (edges n ! 0)) = (case entries (snd e) of [] \<Rightarrow> None | x # _ \<Rightarrow> Some x)"
        using "1.IH"[OF None True] ce e by simp
      moreover have "entries n = entries (snd e) @ concat (map (\<lambda>e. entries (snd e)) es)"
        using None e by (subst entries.simps) simp
      ultimately show ?thesis using None True ne
        by (subst minimum_node.simps) (auto split: list.splits)
    qed
  qed
qed

lemma concat_map_last:
  "es \<noteq> [] \<Longrightarrow> concat (map f es) = concat (map f (butlast es)) @ f (last es)"
  by (cases es rule: rev_cases) auto

lemma maximum_node_compact:
  "compact n \<Longrightarrow> maximum_node n = (if entries n = [] then None else Some (last (entries n)))"
proof (induction n rule: maximum_node.induct)
  case (1 n)
  show ?case
  proof (cases "length (edges n) > 0")
    case False
    then show ?thesis
      by (subst maximum_node.simps, subst entries.simps, subst (2) entries.simps)
         (simp split: option.splits)
  next
    case True
    then have nn: "edges n \<noteq> []" by auto
    let ?e = "last (edges n)"
    have el: "edges n ! (length (edges n) - 1) = ?e" using nn by (simp add: last_conv_nth)
    have mem: "?e \<in> set (edges n)" using nn by simp
    have ce: "compact (snd ?e)" using "1.prems" mem by (subst (asm) compact.simps) simp
    have ne: "entries (snd ?e) \<noteq> []" by (rule compact_child_nonempty[OF "1.prems" mem])
    have ih: "maximum_node (snd ?e) = Some (last (entries (snd ?e)))"
      using "1.IH"[OF refl True] ce el ne by simp
    have "entries n = ((case leaf n of None \<Rightarrow> [] | Some lf \<Rightarrow> [(key lf, val lf)])
                  @ concat (map (\<lambda>e. entries (snd e)) (butlast (edges n)))) @ entries (snd ?e)"
      by (subst entries.simps) (simp add: concat_map_last[OF nn])
    then have "entries n \<noteq> []" "last (entries n) = last (entries (snd ?e))"
      using ne by (simp_all del: append_assoc)
    then show ?thesis using True ih el
      by (subst maximum_node.simps) (simp add: Let_def)
  qed
qed


lemma compact_child:
  assumes "compact n" "getEdge n l = Some c"
  shows "compact c" "isLeaf c \<or> 2 \<le> length (edges c)"
proof -
  from getEdge_split[OF assms(2)] have "(l, c) \<in> set (edges n)" by auto
  then show "compact c" "isLeaf c \<or> 2 \<le> length (edges c)"
    using assms(1) by (subst (asm) compact.simps, force)+
qed

lemma compact_setChild:
  assumes "compact n" "getEdge n l = Some c" "compact c'" "isLeaf c' \<or> 2 \<le> length (edges c')"
  shows "compact (setChild n l c')"
proof -
  from getEdge_split[OF assms(2)] obtain xs ys where e: "edges n = xs @ (l, c) # ys"
    "setChild n l c' = Node (leaf n) (prefix n) (xs @ (l, c') # ys)" by blast
  have "compact (Node (leaf n) (prefix n) (xs @ (l, c) # ys))"
    using assms(1) e(1) compact_edges[of n] by simp
  then show ?thesis unfolding e(2) using assms(3,4) by auto
qed

lemma compact_delEdge:
  assumes "compact n" "getEdge n l = Some c"
  shows "compact (delEdge n l)" "Suc (length (edges (delEdge n l))) = length (edges n)"
proof -
  from getEdge_split[OF assms(2)] obtain xs ys where e: "edges n = xs @ (l, c) # ys"
    "delEdge n l = Node (leaf n) (prefix n) (xs @ ys)" by blast
  have "compact (Node (leaf n) (prefix n) (xs @ (l, c) # ys))"
    using assms(1) e(1) compact_edges[of n] by simp
  then show "compact (delEdge n l)" unfolding e(2) by auto
  show "Suc (length (edges (delEdge n l))) = length (edges n)" unfolding e by simp
qed

lemma compact_addEdge:
  assumes "compact n" "compact (snd e)" "isLeaf (snd e) \<or> 2 \<le> length (edges (snd e))"
  shows "compact (addEdge n e)" "length (edges (addEdge n e)) = Suc (length (edges n))"
proof -
  note compact.simps[of n, THEN iffD1, OF assms(1)]
  then show "compact (addEdge n e)" using assms(2,3) by (auto simp: addEdge_def)
  show "length (edges (addEdge n e)) = Suc (length (edges n))" by (simp add: addEdge_def)
qed

lemma compact_mergeChild:
  assumes "compact n" "length (edges n) = 1"
  shows "\<exists>n'. mergeChild n = Inr n' \<and> compact n' \<and> (isLeaf n' \<or> 2 \<le> length (edges n'))"
proof -
  from assms(2) obtain e where e: "edges n = [e]" by (cases "edges n") auto
  have c: "compact (snd e)" "isLeaf (snd e) \<or> 2 \<le> length (edges (snd e))"
    using assms(1) e by (subst (asm) compact.simps, simp)+
  have "compact (Node (leaf (snd e)) (prefix n @ prefix (snd e)) (edges (snd e)))"
    using c(1) compact_edges[of "snd e"] by simp
  then show ?thesis using e c(2) by (simp add: mergeChild_def isLeaf_def)
qed

lemma insert_node_compact:
  "compact n \<Longrightarrow> insert_node s v n search = Inr (old, grew, n')
   \<Longrightarrow> compact n' \<and> (isLeaf n \<longrightarrow> isLeaf n') \<and> length (edges n) \<le> length (edges n')"
proof (induction s v n search arbitrary: old grew n' rule: insert_node.induct)
  case (1 s v n search)
  note cn = "1.prems"(1) and res = "1.prems"(2)
  have cn': "compact (Node lf pre (edges n))" for lf pre using cn compact_edges[of n] by simp
  show ?case
  proof (cases "length search = 0")
    case True
    then have "\<exists>lfo. n' = Node (Some lfo) (prefix n) (edges n)"
      using res by (subst (asm) insert_node.simps) (auto split: option.splits)
    then show ?thesis using cn' by (auto simp: isLeaf_def simp del: compact_Node)
  next
    case ne: False
    then have nes: "search \<noteq> []" by simp
    show ?thesis
    proof (cases "getEdge n (hd search)")
      case None
      have r: "n' = addEdge n (hd search, Node (Some (LeafNode s v)) search [])"
        using res ne None by (subst (asm) insert_node.simps) simp
      show ?thesis unfolding r
        using compact_addEdge[OF cn, of "(hd search, Node (Some (LeafNode s v)) search [])"]
        by (simp add: isLeaf_def)
    next
      case (Some c)
      note cc = compact_child[OF cn Some]
      let ?cp = "longestPrefix search (prefix c)"
      show ?thesis
      proof (cases "?cp = length (prefix c)")
        case True
        obtain c' where rc: "insert_node s v c (drop ?cp search) = Inr (old, grew, c')"
          and r: "n' = setChild n (hd search) c'"
          using res ne Some True by (subst (asm) insert_node.simps) auto
        from "1.IH"[OF ne Some refl True cc(1) rc]
        have ih: "compact c'" "isLeaf c \<longrightarrow> isLeaf c'" "length (edges c) \<le> length (edges c')"
          by simp_all
        then have "isLeaf c' \<or> 2 \<le> length (edges c')" using cc(2) by auto
        from compact_setChild[OF cn Some ih(1) this] show ?thesis
          unfolding r by (simp add: isLeaf_def)
      next
        case False
        then have lt: "?cp < length (prefix c)"
          using longestPrefix_le2[of search "prefix c"] by simp
        let ?ctrim = "Node (leaf c) (drop ?cp (prefix c)) (edges c)"
        let ?lf = "LeafNode s v"
        let ?child = "if length (drop ?cp search) = 0
             then Node (Some ?lf) (take ?cp search) [(prefix c ! ?cp, ?ctrim)]
             else addEdge (Node None (take ?cp search) [(prefix c ! ?cp, ?ctrim)])
                    (hd (drop ?cp search), Node (Some ?lf) (drop ?cp search) [])"
        have eq: "insert_node s v n search
                  = ebind (updateEdge n (hd search) (Node None (take ?cp search) []))
                      (\<lambda>_. Inr (None, True, setChild n (hd search) ?child))"
          by (subst insert_node.simps) (simp add: nes Some False lt Let_def addEdge_def)
        from getEdge_split[OF Some] obtain n0 where
          "updateEdge n (hd search) (Node None (take ?cp search) []) = Inr n0" by auto
        then have "insert_node s v n search = Inr (None, True, setChild n (hd search) ?child)"
          unfolding eq by (simp add: ebind_def)
        with res have r: "n' = setChild n (hd search) ?child" by auto
        have ct: "compact ?ctrim" "isLeaf ?ctrim \<or> 2 \<le> length (edges ?ctrim)"
          using cc compact_edges[of c] by (simp_all add: isLeaf_def del: compact_Node)
        have base: "compact (Node lfo (take ?cp search) [(prefix c ! ?cp, ?ctrim)])" for lfo
          using ct by (subst compact_Node) simp
        have "compact ?child \<and> (isLeaf ?child \<or> 2 \<le> length (edges ?child))"
        proof (cases "length (drop ?cp search) = 0")
          case True
          then show ?thesis using base[of "Some ?lf"] by (simp add: isLeaf_def del: compact_Node)
        next
          case f: False
          have "compact (addEdge m (l', Node (Some ?lf) x []))
                \<and> length (edges (addEdge m (l', Node (Some ?lf) x []))) = Suc (length (edges m))"
            if "compact m" for m l' x
            using compact_addEdge[OF that, of "(l', Node (Some ?lf) x [])"]
            by (simp add: isLeaf_def)
          from this[OF base[of None]]
          show ?thesis using f by (simp del: compact_Node)
        qed
        then show ?thesis unfolding r
          using compact_setChild[OF cn Some, of ?child] by (simp add: isLeaf_def del: compact_Node)
      qed
    qed
  qed
qed

lemma delete_child_compact:
  assumes cn: "compact parent" and get: "getEdge parent l = Some n"
    and pc: "r \<or> isLeaf parent \<or> 2 \<le> length (edges parent)"
    and res: "delete_child r parent l n = Inr p'"
  shows "compact p' \<and> (r \<or> isLeaf p' \<or> 2 \<le> length (edges p'))"
proof -
  note cc = compact_child[OF cn get]
  define n1 where "n1 = Node None (prefix n) (edges n)"
  have n1: "compact n1" "edges n1 = edges n"
    using cc(1) compact_edges[of n] unfolding n1_def by simp_all
  obtain n2 where n2: "(if length (edges n1) = 1 then mergeChild n1 else Inr n1) = Inr n2"
    and n2c: "compact n2" and n2p: "length (edges n1) \<noteq> 0 \<longrightarrow> isLeaf n2 \<or> 2 \<le> length (edges n2)"
  proof (cases "length (edges n1) = 1")
    case True
    from compact_mergeChild[OF n1(1) True] that True show ?thesis by auto
  next
    case False
    have "length (edges n1) \<noteq> 0 \<longrightarrow> 2 \<le> length (edges n1)" using False by arith
    then show ?thesis using that[of n1] n1 False by simp
  qed
  define parent1 where "parent1 = setChild parent l n2"
  define parent2 where "parent2 = (if length (edges n1) = 0 then delEdge parent1 l else parent1)"
  have res': "(if \<not> r \<and> length (edges parent2) = 1 \<and> \<not> isLeaf parent2
               then mergeChild parent2 else Inr parent2) = Inr p'"
    using res n2 unfolding delete_child_def Let_def n1_def[symmetric] parent1_def parent2_def
    by (auto split: if_splits)
  have p2: "compact parent2 \<and> isLeaf parent2 = isLeaf parent
            \<and> length (edges parent) \<le> Suc (length (edges parent2))"
  proof (cases "length (edges n1) = 0")
    case True
    then have "parent2 = delEdge parent l"
      unfolding parent2_def parent1_def using delEdge_setChild[OF get] by simp
    then show ?thesis using compact_delEdge[OF cn get] by (simp add: isLeaf_def)
  next
    case False
    then have "parent2 = setChild parent l n2" unfolding parent2_def parent1_def by simp
    then show ?thesis using compact_setChild[OF cn get n2c] n2p False by (simp add: isLeaf_def)
  qed
  show ?thesis
  proof (cases "\<not> r \<and> length (edges parent2) = 1 \<and> \<not> isLeaf parent2")
    case True
    then have "length (edges parent2) = 1" by simp
    from compact_mergeChild[OF _ this] p2 res' True show ?thesis by auto
  next
    case False
    then have "p' = parent2" using res' by (auto split: if_splits)
    moreover have "r \<or> isLeaf parent2 \<or> 2 \<le> length (edges parent2)"
      using False pc p2 by auto
    ultimately show ?thesis using p2 by simp
  qed
qed

lemma delete_desc_compact:
  "compact n \<Longrightarrow> r \<or> isLeaf n \<or> 2 \<le> length (edges n)
   \<Longrightarrow> delete_desc r n search = Inr (Some (v, n'))
   \<Longrightarrow> compact n' \<and> (r \<or> isLeaf n' \<or> 2 \<le> length (edges n'))"
proof (induction r n search arbitrary: v n' rule: delete_desc.induct)
  case (1 r n search)
  note cn = "1.prems"(1) and pc = "1.prems"(2) and res = "1.prems"(3)
  show ?case
  proof (cases "getEdge n (hd search)")
    case None
    then show ?thesis using res by (subst (asm) delete_desc.simps) simp
  next
    case (Some c)
    note cc = compact_child[OF cn Some]
    show ?thesis
    proof (cases "HasPrefix search (prefix c)")
      case False
      then show ?thesis using res Some by (subst (asm) delete_desc.simps) simp
    next
      case hp: True
      let ?s' = "drop (length (prefix c)) search"
      show ?thesis
      proof (cases "length ?s' = 0")
        case True
        then obtain p where "delete_child r n (hd search) c = Inr p" "n' = p"
          using res Some hp by (subst (asm) delete_desc.simps) (auto split: option.splits)
        then show ?thesis using delete_child_compact[OF cn Some pc] by simp
      next
        case False
        obtain c' where rc: "delete_desc False c ?s' = Inr (Some (v, c'))"
          and r: "n' = setChild n (hd search) c'"
          using res Some hp False
          by (subst (asm) delete_desc.simps) (auto split: option.splits)
        from "1.IH"[OF Some hp refl False cc(1) _ rc] cc(2)
        have "compact c'" "isLeaf c' \<or> 2 \<le> length (edges c')" by simp_all
        from compact_setChild[OF cn Some this] pc show ?thesis
          unfolding r by (simp add: isLeaf_def)
      qed
    qed
  qed
qed

lemma apply_op_compact:
  assumes "compact (root t)" "no_DeletePrefix x" "apply_op t x = Inr t'"
  shows "compact (root t')"
proof (cases x)
  case (OpInsert s v)
  then obtain old grew r where "insert_node s v (root t) s = Inr (old, grew, r)" "root t' = r"
    using assms(3) by (auto simp: Insert_def)
  then show ?thesis using insert_node_compact[OF assms(1)] by simp
next
  case (OpDelete s)
  then obtain old where d: "Delete t s = Inr (old, t')" using assms(3) by auto
  show ?thesis
  proof (cases "length s = 0")
    case True
    then have "t' = t \<or> root t' = Node None (prefix (root t)) (edges (root t))"
      using d by (auto simp: Delete_def split: option.splits)
    then show ?thesis using assms(1) compact_edges[of "root t"] by auto
  next
    case False
    with d have "\<exists>res. delete_desc True (root t) s = Inr res \<and>
         (case res of None \<Rightarrow> Inr (None, t)
                | Some (v, r') \<Rightarrow> Inr (Some v, \<lparr>root = r', tsize = tsize t - 1\<rparr>))
          = (Inr (old, t') :: error + 'a option \<times> 'a tree)"
      by (simp add: Delete_def)
    then obtain res where dd: "delete_desc True (root t) s = Inr res"
      and r: "(case res of None \<Rightarrow> Inr (None, t)
                | Some (v, r') \<Rightarrow> Inr (Some v, \<lparr>root = r', tsize = tsize t - 1\<rparr>))
          = (Inr (old, t') :: error + 'a option \<times> 'a tree)"
      by blast
    show ?thesis
    proof (cases res)
      case None
      then show ?thesis using r assms(1) by simp
    next
      case (Some vn)
      obtain v r' where vn: "vn = (v, r')" by (cases vn)
      have "root t' = r'" using r Some vn by auto
      moreover have "compact r'"
        using delete_desc_compact[OF assms(1) _ dd[unfolded Some vn]] by simp
      ultimately show ?thesis by simp
    qed
  qed
next
  case (OpDeletePrefix p)
  then show ?thesis using assms(2) by simp
qed

lemma run_compact:
  "compact (root t) \<Longrightarrow> \<forall>x\<in>set ops. no_DeletePrefix x \<Longrightarrow> run t ops = Inr t'
   \<Longrightarrow> compact (root t')"
proof (induction ops arbitrary: t)
  case Nil
  then show ?case by simp
next
  case (Cons x ops)
  from Cons.prems(3) obtain t1 where a: "apply_op t x = Inr t1" "run t1 ops = Inr t'" by auto
  have "compact (root t1)" using apply_op_compact[OF Cons.prems(1) _ a(1)] Cons.prems(2) by simp
  then show ?case using Cons.IH[OF _ _ a(2)] Cons.prems(2) by simp
qed


lemma sorted_keys_hd_least:
  "sorted_wrt (<) (map fst (x # xs)) \<Longrightarrow> y \<in> set (x # xs) \<Longrightarrow> fst x \<le> (fst y :: string)"
  by auto

lemma sorted_keys_last_greatest:
  "sorted_wrt (<) (map fst xs) \<Longrightarrow> y \<in> set xs \<Longrightarrow> (fst y :: string) \<le> fst (last xs)"
proof (induction xs rule: rev_induct)
  case Nil
  then show ?case by simp
next
  case (snoc x xs)
  then show ?case by (auto simp: sorted_wrt_append)
qed

lemma sorted_keys_unique:
  "sorted_wrt (<) (map fst xs) \<Longrightarrow> sorted_wrt (<) (map fst ys) \<Longrightarrow> set xs = set ys
   \<Longrightarrow> xs = (ys :: (string \<times> 'v) list)"
proof (induction xs arbitrary: ys)
  case Nil
  then show ?case by simp
next
  case (Cons x xs)
  then obtain y ys' where ys: "ys = y # ys'" by (cases ys) auto
  have xl: "\<forall>z\<in>set xs. fst x < fst z" and yl: "\<forall>z\<in>set ys'. fst y < fst z"
    using Cons.prems(1,2) ys by auto
  have xy: "x = y"
  proof (rule ccontr)
    assume n: "x \<noteq> y"
    have "x \<in> set ys'" using Cons.prems(3) ys n by auto
    moreover have "y \<in> set xs" using Cons.prems(3) ys n by auto
    ultimately have "fst y < fst x" "fst x < fst y" using xl yl by auto
    then show False by simp
  qed
  have "x \<notin> set xs" "x \<notin> set ys'" using xl yl xy by auto
  then have "set xs = set ys'" using Cons.prems(3) ys xy by auto
  then have "xs = ys'" using Cons.IH[of ys'] Cons.prems(1,2) ys by simp
  then show ?case using ys xy by simp
qed

lemma Minimum_Maximum_compact:
  assumes "tree_inv t" "compact (root t)"
  shows "(\<forall>k. Get t k = None) \<longrightarrow> Minimum t = None \<and> Maximum t = None"
    and "Get t k \<noteq> None \<longrightarrow>
           (\<exists>m v. Minimum t = Some (m, v) \<and> Get t m = Some v \<and> (\<forall>k'. Get t k' \<noteq> None \<longrightarrow> m \<le> k'))
         \<and> (\<exists>m v. Maximum t = Some (m, v) \<and> Get t m = Some v \<and> (\<forall>k'. Get t k' \<noteq> None \<longrightarrow> k' \<le> m))"
proof -
  define E where "E = entries (root t)"
  have srt: "sorted_wrt (<) (map fst E)"
    unfolding E_def using assms(1) node_inv_sorted[of "[]" "root t"] by (simp add: tree_inv_def)
  have mn: "Minimum t = (case E of [] \<Rightarrow> None | x # _ \<Rightarrow> Some x)"
    unfolding Minimum_def E_def by (rule minimum_node_compact[OF assms(2)])
  have mx: "Maximum t = (if E = [] then None else Some (last E))"
    unfolding Maximum_def E_def by (rule maximum_node_compact[OF assms(2)])
  have mem: "Get t (fst x) = Some (snd x)" if "x \<in> set E" for x
    using Get_entries[OF assms(1), of "fst x" "snd x"] that unfolding E_def by simp
  have key: "\<exists>x\<in>set E. fst x = k'" if "Get t k' \<noteq> None" for k'
  proof -
    from that obtain v where "Get t k' = Some v" by (cases "Get t k'") simp_all
    then have "(k', v) \<in> set E" using Get_entries[OF assms(1), of k' v] unfolding E_def by simp
    then show ?thesis by (rule bexI[rotated]) simp
  qed
  show "(\<forall>k. Get t k = None) \<longrightarrow> Minimum t = None \<and> Maximum t = None"
  proof
    assume a: "\<forall>k. Get t k = None"
    have "E = []"
    proof (cases E)
      case (Cons x xs)
      then have "Get t (fst x) = Some (snd x)" using mem[of x] by simp
      then show ?thesis using a by simp
    qed simp
    then show "Minimum t = None \<and> Maximum t = None" using mn mx by simp
  qed
  show "Get t k \<noteq> None \<longrightarrow>
           (\<exists>m v. Minimum t = Some (m, v) \<and> Get t m = Some v \<and> (\<forall>k'. Get t k' \<noteq> None \<longrightarrow> m \<le> k'))
         \<and> (\<exists>m v. Maximum t = Some (m, v) \<and> Get t m = Some v \<and> (\<forall>k'. Get t k' \<noteq> None \<longrightarrow> k' \<le> m))"
  proof
    assume "Get t k \<noteq> None"
    then have "\<exists>x\<in>set E. fst x = k" by (rule key)
    then have ne: "E \<noteq> []" by (cases E) simp_all
    then obtain x xs where e: "E = x # xs" by (cases E) simp_all
    have least: "\<forall>k'. Get t k' \<noteq> None \<longrightarrow> fst x \<le> k'"
    proof (intro allI impI)
      fix k' assume "Get t k' \<noteq> None"
      then have "\<exists>x\<in>set E. fst x = k'" by (rule key)
      then obtain y where y: "y \<in> set E" "fst y = k'" by (elim bexE)
      have "fst x \<le> fst y" using sorted_keys_hd_least[of x xs y] srt y(1) unfolding e by simp
      then show "fst x \<le> k'" using y(2) by simp
    qed
    have greatest: "\<forall>k'. Get t k' \<noteq> None \<longrightarrow> k' \<le> fst (last E)"
    proof (intro allI impI)
      fix k' assume "Get t k' \<noteq> None"
      then have "\<exists>x\<in>set E. fst x = k'" by (rule key)
      then obtain y where y: "y \<in> set E" "fst y = k'" by (elim bexE)
      have "fst y \<le> fst (last E)" using sorted_keys_last_greatest[OF srt y(1)] .
      then show "k' \<le> fst (last E)" using y(2) by simp
    qed
    have gx: "Get t (fst x) = Some (snd x)" using mem[of x] e by simp
    have gl: "Get t (fst (last E)) = Some (snd (last E))" using mem[of "last E"] ne by simp
    have m1: "Minimum t = Some (fst x, snd x)" using mn e by simp
    have m2: "Maximum t = Some (fst (last E), snd (last E))" using mx ne by simp
    have A: "\<exists>m v. Minimum t = Some (m, v) \<and> Get t m = Some v \<and> (\<forall>k'. Get t k' \<noteq> None \<longrightarrow> m \<le> k')"
      using m1 gx least by (intro exI conjI)
    have B: "\<exists>m v. Maximum t = Some (m, v) \<and> Get t m = Some v \<and> (\<forall>k'. Get t k' \<noteq> None \<longrightarrow> k' \<le> m)"
      using m2 gl greatest by (intro exI conjI)
    show "(\<exists>m v. Minimum t = Some (m, v) \<and> Get t m = Some v \<and> (\<forall>k'. Get t k' \<noteq> None \<longrightarrow> m \<le> k'))
         \<and> (\<exists>m v. Maximum t = Some (m, v) \<and> Get t m = Some v \<and> (\<forall>k'. Get t k' \<noteq> None \<longrightarrow> k' \<le> m))"
      using A B by (rule conjI)
  qed
qed

lemma compact_New: "compact (root New)"
  by (simp add: New_def)

lemma Minimum_Maximum_without_DeletePrefix:
  assumes "run New ops = Inr t" "\<forall>x\<in>set ops. no_DeletePrefix x"
  shows "((\<forall>k. Get t k = None) \<longrightarrow> Minimum t = None \<and> Maximum t = None)
       \<and> (Get t k \<noteq> None \<longrightarrow>
           (\<exists>m v. Minimum t = Some (m, v) \<and> Get t m = Some v \<and> (\<forall>k'. Get t k' \<noteq> None \<longrightarrow> m \<le> k'))
         \<and> (\<exists>m v. Maximum t = Some (m, v) \<and> Get t m = Some v \<and> (\<forall>k'. Get t k' \<noteq> None \<longrightarrow> k' \<le> m)))"
  using Minimum_Maximum_compact[OF reachable_inv[OF assms(1)] run_compact[OF compact_New assms(2,1)]]
  by blast

lemma LongestPrefix_determined:
  assumes "tree_inv t" "tree_inv t'" "\<forall>k. Get t' k = Get t k"
  shows "LongestPrefix t' q = LongestPrefix t q"
proof -
  note a = LongestPrefix_correct[OF assms(1), of q] and b = LongestPrefix_correct[OF assms(2), of q]
  show ?thesis
  proof (cases "LongestPrefix t q")
    case None
    show ?thesis
    proof (cases "LongestPrefix t' q")
      case (Some mv)
      then show ?thesis using a b None assms(3) by (cases mv) auto
    qed (simp add: None)
  next
    case (Some mv)
    obtain m v where mv: "mv = (m, v)" by (cases mv)
    have A: "Get t m = Some v" "HasPrefix q m"
      "\<forall>m' v'. Get t m' = Some v' \<and> HasPrefix q m' \<longrightarrow> length m' \<le> length m"
      using a Some mv by simp_all
    show ?thesis
    proof (cases "LongestPrefix t' q")
      case None
      then show ?thesis using b A assms(3) by auto
    next
      case (Some mv')
      obtain m' v' where mv': "mv' = (m', v')" by (cases mv')
      have B: "Get t m' = Some v'" "HasPrefix q m'"
        "\<forall>m'' v''. Get t m'' = Some v'' \<and> HasPrefix q m'' \<longrightarrow> length m'' \<le> length m'"
        using b Some mv' assms(3) by simp_all
      have "length m = length m'" using A B by (meson le_antisym)
      then have "m = m'" using A(2) B(2) by (auto simp: HasPrefix_def)
      then show ?thesis using A(1) B(1) Some mv' \<open>LongestPrefix t q = Some mv\<close> mv by simp
    qed
  qed
qed

lemma Insert_Delete_inverse:
  assumes inv: "tree_inv t" and absent: "Get t k = None"
    and ins: "Insert t k v = Inr (o1, t1)" and del: "Delete t1 k = Inr (o2, t2)"
  shows "o2 = Some v \<and> (\<forall>k'. Get t2 k' = Get t k')
         \<and> Walk t2 recordFn [] = Walk t recordFn []
         \<and> (\<forall>q. LongestPrefix t2 q = LongestPrefix t q)
         \<and> Len t2 = Len t"
proof -
  have t1: "tree_inv t1" using Insert_correct[OF inv ins] by simp
  have t2: "tree_inv t2" and o2: "o2 = Get t1 k" using Delete_correct[OF t1 del] by simp_all
  have g: "Get t2 k' = Get t k'" for k'
    using Get_Delete[OF t1 del, of k'] Get_Insert[OF inv ins, of k'] absent by simp
  have "set (entries (root t2)) = set (entries (root t))"
  proof -
    have "x \<in> set (entries (root t2)) \<longleftrightarrow> x \<in> set (entries (root t))" for x
      using Get_entries[OF t2, of "fst x" "snd x"] Get_entries[OF inv, of "fst x" "snd x"] g
      by simp
    then show ?thesis by blast
  qed
  moreover have "sorted_wrt (<) (map fst (entries (root t2)))"
    "sorted_wrt (<) (map fst (entries (root t)))"
    using t2 inv node_inv_sorted[of "[]" "root t2"] node_inv_sorted[of "[]" "root t"]
    by (simp_all add: tree_inv_def)
  ultimately have e: "entries (root t2) = entries (root t)" using sorted_keys_unique by blast
  have "o2 = Some v" using o2 Get_Insert[OF inv ins, of k] by simp
  moreover have "LongestPrefix t2 q = LongestPrefix t q" for q
    using LongestPrefix_determined[OF inv t2] g by simp
  moreover have "Len t2 = Len t" using t2 inv e by (simp add: Len_def tree_inv_def)
  ultimately show ?thesis using g e by (simp add: Walk_record)
qed

lemma Insert_Delete_inverse_Minimum_Maximum:
  assumes inv: "tree_inv t" and c: "compact (root t)" and absent: "Get t k = None"
    and ins: "Insert t k v = Inr (o1, t1)" and del: "Delete t1 k = Inr (o2, t2)"
  shows "Minimum t2 = Minimum t \<and> Maximum t2 = Maximum t"
proof -
  have "apply_op t (OpInsert k v) = Inr t1" using ins by simp
  then have c1: "compact (root t1)" using apply_op_compact[OF c, of "OpInsert k v" t1] by simp
  have "apply_op t1 (OpDelete k) = Inr t2" using del by simp
  then have c2: "compact (root t2)" using apply_op_compact[OF c1, of "OpDelete k" t2] by simp
  have e: "entries (root t2) = entries (root t)"
    using Insert_Delete_inverse[OF inv absent ins del] by (simp add: Walk_record)
  show ?thesis
    unfolding Minimum_def Maximum_def
    by (simp only: minimum_node_compact[OF c] minimum_node_compact[OF c2]
        maximum_node_compact[OF c] maximum_node_compact[OF c2] e)
qed

section \<open>The history of calls\<close>

lemma Get_apply_op:
  assumes "tree_inv t" "apply_op t x = Inr t'"
  shows "Get t' = spec_present_after (Get t) x"
proof (cases x)
  case (OpInsert s v)
  then obtain old where "Insert t s v = Inr (old, t')" using assms(2) by auto
  from Get_Insert[OF assms(1) this] show ?thesis using OpInsert by (intro ext) simp
next
  case (OpDelete s)
  then obtain old where "Delete t s = Inr (old, t')" using assms(2) by auto
  from Get_Delete[OF assms(1) this] show ?thesis using OpDelete by (intro ext) simp
next
  case (OpDeletePrefix p)
  then obtain cnt where "DeletePrefix t p = Inr (cnt, t')" using assms(2) by auto
  from Get_DeletePrefix[OF assms(1) this] show ?thesis using OpDeletePrefix by (intro ext) simp
qed

lemma Get_run:
  "tree_inv t \<Longrightarrow> run t ops = Inr t' \<Longrightarrow> Get t' = foldl spec_present_after (Get t) ops"
proof (induction ops arbitrary: t)
  case Nil
  then show ?case by simp
next
  case (Cons x ops)
  from Cons.prems(2) obtain t1 where a: "apply_op t x = Inr t1" "run t1 ops = Inr t'" by auto
  have "tree_inv t1" using apply_op_inv[OF Cons.prems(1) a(1)] .
  then have "Get t' = foldl spec_present_after (Get t1) ops" using Cons.IH a(2) by blast
  then show ?case using Get_apply_op[OF Cons.prems(1) a(1)] by simp
qed

lemma Get_New: "Get (New :: 'v tree) = Map.empty"
proof (intro ext)
  fix k :: string
  have "Get (New :: 'v tree) k \<noteq> Some v" for v
    using Get_entries[OF tree_inv_New, of k v] by (simp add: New_def)
  then show "Get (New :: 'v tree) k = None" by (cases "Get (New :: 'v tree) k") auto
qed

lemma Get_history: "run New ops = Inr t \<Longrightarrow> Get t = spec_present ops"
  using Get_run[OF tree_inv_New, of ops t] by (simp add: Get_New spec_present_def)

lemma Len_history:
  assumes "run New ops = Inr t"
  shows "Len t = int (card (dom (spec_present ops)))"
proof -
  have "{k. Get t k \<noteq> None} = dom (spec_present ops)"
    unfolding Get_history[OF assms] dom_def ..
  then show ?thesis using tsize_present_keys[OF reachable_inv[OF assms]] by (simp add: Len_def)
qed

section \<open>Claims\<close>

text \<open>
  C9. The panic "replacing missing edge" cannot happen. \<open>updateEdge\<close> panics
  exactly when \<open>getEdge\<close> finds no edge for the same label in the same node (both
  run the same search), a node that \<open>getEdge\<close> returns for a label sits in the edge
  list under that label, and the split path of \<open>Insert\<close> calls \<open>updateEdge\<close> only
  after \<open>getEdge\<close> has returned a node for \<open>search[0]\<close>. So no iteration of the
  loop of \<open>Insert\<close> panics at any node, \<open>Insert\<close> does not panic on any tree, and
  every sequence of \<open>Insert\<close>, \<open>Delete\<close> and \<open>DeletePrefix\<close> calls from \<open>New()\<close> runs
  to its end without a panic.
\<close>

theorem replacing_missing_edge_unreachable:
  "(updateEdge n l child = Inl ReplacingMissingEdge \<longleftrightarrow> getEdge n l = None)
   \<and> (\<forall>c. getEdge n l = Some c \<longrightarrow> (l, c) \<in> set (edges n))
   \<and> insert_node s v n search \<noteq> Inl e
   \<and> Insert t s v \<noteq> Inl e
   \<and> (\<exists>t'. run New ops = Inr t')"
proof -
  have "updateEdge n l child = Inl ReplacingMissingEdge \<longleftrightarrow> getEdge n l = None"
    by (auto simp: getEdge_def updateEdge_def split: option.splits)
  moreover have "(l, c) \<in> set (edges n)" if "getEdge n l = Some c" for c
    using getEdge_split[OF that] by auto
  moreover have "\<exists>t'. run New ops = Inr t'"
    using run_total [of New ops] by (cases "run New ops") auto
  ultimately show ?thesis
    by (simp add: insert_node_total Insert_total)
qed

theorem replacing_missing_edge_unreachable_witness:
  "getEdge (Node None [] [(CHR ''a'', Node None ''a'' [])]) (CHR ''a'')
     = Some (Node None ''a'' [] :: nat node)
   \<and> (CHR ''a'', Node None ''a'' [] :: nat node)
       \<in> set (edges (Node None [] [(CHR ''a'', Node None ''a'' [])]))
   \<and> updateEdge (Node None [] [(CHR ''a'', Node None ''a'' [])]) (CHR ''a'')
       (Node None ''b'' [] :: nat node) \<noteq> Inl ReplacingMissingEdge
   \<and> Insert \<lparr>root = Node None [] [(CHR ''a'', Node (Some (LeafNode ''abc'' (1::nat))) ''abc'' [])],
               tsize = 1\<rparr> ''abd'' 2 \<noteq> Inl ReplacingMissingEdge
   \<and> (\<exists>t'. run New [OpInsert ''abc'' (1::nat), OpInsert ''abd'' 2, OpDelete ''abc''] = Inr t')"
proof -
  have g: "getEdge (Node None [] [(CHR ''a'', Node None ''a'' [])]) (CHR ''a'')
             = Some (Node None ''a'' [] :: nat node)"
    by code_simp
  show ?thesis
    using g replacing_missing_edge_unreachable
      [of "Node None [] [(CHR ''a'', Node None ''a'' [])]" "CHR ''a''" "Node None ''b'' []"
          "''abd''" "2::nat" "''abd''" ReplacingMissingEdge
          "\<lparr>root = Node None [] [(CHR ''a'', Node (Some (LeafNode ''abc'' (1::nat))) ''abc'' [])],
               tsize = 1\<rparr>"
          "[OpInsert ''abc'' (1::nat), OpInsert ''abd'' 2, OpDelete ''abc'']"]
    by (metis option.distinct(1))
qed

text \<open>
  C1. \<open>Minimum\<close> and \<open>Maximum\<close> after \<open>DeletePrefix\<close>. \<open>deletePrefix\<close> empties the node
  at which the prefix is exhausted but leaves its edge in the parent. After
  \<open>Insert("a", 1)\<close>, \<open>Insert("b", 2)\<close>, \<open>DeletePrefix("a")\<close> the root still has the edge
  \<open>a\<close>, to a node without leaf and without edges: \<open>Get("b")\<close> finds the key, and
  \<open>Minimum\<close> descends into the first edge and reports that nothing was found.
  \<open>Maximum\<close> does the same at the last edge after \<open>DeletePrefix("b")\<close>.
\<close>

theorem Minimum_Maximum_after_DeletePrefix:
  "run New [OpInsert ''a'' 1, OpInsert ''b'' 2, OpDeletePrefix ''a'']
     = Inr \<lparr>root = Node None [] [(CHR ''a'', Node None ''a'' []),
                                 (CHR ''b'', Node (Some (LeafNode ''b'' (2::nat))) ''b'' [])],
            tsize = 1\<rparr>
   \<and> Get \<lparr>root = Node None [] [(CHR ''a'', Node None ''a'' []),
                                 (CHR ''b'', Node (Some (LeafNode ''b'' (2::nat))) ''b'' [])],
            tsize = 1\<rparr> ''b'' = Some 2
   \<and> Minimum \<lparr>root = Node None [] [(CHR ''a'', Node None ''a'' []),
                                 (CHR ''b'', Node (Some (LeafNode ''b'' (2::nat))) ''b'' [])],
            tsize = 1\<rparr> = None
   \<and> run New [OpInsert ''a'' 1, OpInsert ''b'' 2, OpDeletePrefix ''b'']
     = Inr \<lparr>root = Node None [] [(CHR ''a'', Node (Some (LeafNode ''a'' (1::nat))) ''a'' []),
                                 (CHR ''b'', Node None ''b'' [])],
            tsize = 1\<rparr>
   \<and> Get \<lparr>root = Node None [] [(CHR ''a'', Node (Some (LeafNode ''a'' (1::nat))) ''a'' []),
                                 (CHR ''b'', Node None ''b'' [])],
            tsize = 1\<rparr> ''a'' = Some 1
   \<and> Maximum \<lparr>root = Node None [] [(CHR ''a'', Node (Some (LeafNode ''a'' (1::nat))) ''a'' []),
                                 (CHR ''b'', Node None ''b'' [])],
            tsize = 1\<rparr> = None"
  by code_simp

text \<open>
  C3. After any sequence of \<open>Insert\<close> calls on an empty tree, \<open>Get\<close> returns for every
  key the value of the last \<open>Insert\<close> of that key in the sequence, and reports a
  key that no call inserted as not found. The sequence \<open>kvs\<close> lists the calls in
  order, so the last assignment to \<open>k\<close> is the first one in \<open>rev kvs\<close>.
\<close>

theorem Get_after_Inserts:
  "\<exists>t. run New (map (\<lambda>(k, v). OpInsert k v) kvs) = Inr t
       \<and> (\<forall>k. Get t k = map_of (rev kvs) k)"
proof -
  obtain t where t: "run New (map (\<lambda>(k, v). OpInsert k v) kvs) = Inr t"
    using run_total[of New "map (\<lambda>(k, v). OpInsert k v) kvs"]
    by (cases "run New (map (\<lambda>(k, v). OpInsert k v) kvs)") auto
  have "Get (New :: 'a tree) k = None" for k
    by (subst Get_def, subst get_node.simps) (simp add: New_def getEdge_def edgeIdx_def Search_def
        Search_loop.simps)
  then have "Get t k = map_of (rev kvs) k" for k
    using run_inserts[OF tree_inv_New t, of k] by (simp split: option.splits)
  then show ?thesis using t by blast
qed

theorem Get_after_Inserts_witness:
  "\<exists>t. run New [OpInsert ''foo'' (1::nat), OpInsert ''foobar'' 2, OpInsert ''foo'' 3] = Inr t
       \<and> Get t ''foo'' = Some 3 \<and> Get t ''foobar'' = Some 2 \<and> Get t ''fo'' = None"
proof -
  from Get_after_Inserts[of "[(''foo'', 1::nat), (''foobar'', 2), (''foo'', 3)]"]
  obtain t where "run New [OpInsert ''foo'' (1::nat), OpInsert ''foobar'' 2, OpInsert ''foo'' 3] = Inr t"
    and g: "\<forall>k. Get t k = map_of (rev [(''foo'', 1::nat), (''foobar'', 2), (''foo'', 3)]) k"
    by auto
  moreover have "Get t ''foo'' = Some 3" "Get t ''foobar'' = Some 2" "Get t ''fo'' = None"
    by (simp_all add: g)
  ultimately show ?thesis by blast
qed

text \<open>
  C4. On every tree reached from \<open>New()\<close> by \<open>Insert\<close>, \<open>Delete\<close> and \<open>DeletePrefix\<close>
  calls, a \<open>Walk\<close> whose callback never asks to stop calls it on the sequence of
  entries that the recording callback collects, passing the callback's state from
  each call to the next; the keys of that sequence ascend strictly in byte-wise
  lexicographic order (so no key occurs twice), and an entry is in the sequence
  exactly if \<open>Get\<close> finds its key with its value.
\<close>

theorem Walk_visits_present_keys_ascending:
  assumes "run New ops = Inr t" and "\<forall>st k v. \<not> fst (fn st k v)"
  shows "Walk t fn st = fold (\<lambda>kv st. snd (fn st (fst kv) (snd kv))) (Walk t recordFn []) st
         \<and> sorted_wrt (<) (map fst (Walk t recordFn []))
         \<and> (\<forall>k v. (k, v) \<in> set (Walk t recordFn []) \<longleftrightarrow> Get t k = Some v)"
proof -
  have inv: "tree_inv t" by (rule reachable_inv[OF assms(1)])
  then have "node_inv [] (root t)" by (simp add: tree_inv_def)
  then have "sorted_wrt (<) (map fst (entries (root t)))" by (rule node_inv_sorted)
  then show ?thesis
    using Walk_never_stop[OF assms(2)] Get_entries[OF inv] by (simp add: Walk_record)
qed

theorem Walk_visits_present_keys_ascending_witness:
  "Walk \<lparr>root = Node None [] [(CHR ''a'', Node None ''a'' []),
                                (CHR ''b'', Node (Some (LeafNode ''b'' (2::nat))) ''b''
                                   [(CHR ''c'', Node (Some (LeafNode ''bc'' 3)) ''c'' [])])],
          tsize = 2\<rparr> countFn 0 = 2
   \<and> Walk \<lparr>root = Node None [] [(CHR ''a'', Node None ''a'' []),
                                (CHR ''b'', Node (Some (LeafNode ''b'' (2::nat))) ''b''
                                   [(CHR ''c'', Node (Some (LeafNode ''bc'' 3)) ''c'' [])])],
          tsize = 2\<rparr> recordFn [] = [(''b'', 2), (''bc'', 3)]"
proof -
  let ?t = "\<lparr>root = Node None [] [(CHR ''a'', Node None ''a'' []),
                                (CHR ''b'', Node (Some (LeafNode ''b'' (2::nat))) ''b''
                                   [(CHR ''c'', Node (Some (LeafNode ''bc'' 3)) ''c'' [])])],
          tsize = 2\<rparr>"
  have r: "run New [OpInsert ''a'' (1::nat), OpInsert ''b'' 2, OpInsert ''bc'' 3, OpDeletePrefix ''a'']
           = Inr ?t" by code_simp
  have f: "\<forall>st k v. \<not> fst ((countFn :: (nat, nat) WalkFn) st k v)" by (simp add: countFn_def)
  have w: "Walk ?t recordFn [] = [(''b'', 2), (''bc'', 3)]" by code_simp
  from Walk_visits_present_keys_ascending[OF r f, of 0]
  have "Walk ?t countFn 0 = fold (\<lambda>kv st. snd (countFn st (fst kv) (snd kv))) (Walk ?t recordFn []) 0"
    by blast
  then show ?thesis unfolding w by (simp add: countFn_def)
qed

text \<open>
  C8. After every sequence of public operations from \<open>New()\<close>, \<open>Len\<close> is the number
  of keys the history leaves present: keys inserted and not since removed by
  \<open>Delete\<close> or \<open>DeletePrefix\<close>, as \<open>spec_present\<close> follows them call by call. \<open>Get\<close>
  answers exactly those keys with their latest values, so \<open>Len\<close> is also the number
  of keys \<open>Get\<close> finds and the number of entries a full walk visits. An \<open>Insert\<close> of
  a key that is present, a \<open>Delete\<close> of a key that is absent and a \<open>DeletePrefix\<close> of
  a prefix that no present key has leave \<open>Len\<close> as it is; the \<open>Delete\<close> reports not
  found and the \<open>DeletePrefix\<close> reports zero.
\<close>

theorem Len_counts_present_keys:
  assumes "run New ops = Inr t"
  shows "Len t = int (card (dom (spec_present ops)))
         \<and> (\<forall>k. Get t k = spec_present ops k)
         \<and> Len t = int (card {k. Get t k \<noteq> None})
         \<and> Len t = int (length (Walk t recordFn []))
         \<and> (\<forall>s v old t'. Get t s \<noteq> None \<and> Insert t s v = Inr (old, t') \<longrightarrow> Len t' = Len t)
         \<and> (\<forall>s old t'. Get t s = None \<and> Delete t s = Inr (old, t')
                \<longrightarrow> old = None \<and> Len t' = Len t)
         \<and> (\<forall>p cnt t'. (\<forall>k. Get t k \<noteq> None \<longrightarrow> \<not> HasPrefix k p) \<and> DeletePrefix t p = Inr (cnt, t')
                \<longrightarrow> cnt = 0 \<and> Len t' = Len t)"
proof -
  have inv: "tree_inv t" by (rule reachable_inv[OF assms])
  have h1: "Len t = int (card (dom (spec_present ops)))" by (rule Len_history[OF assms])
  have h2: "\<forall>k. Get t k = spec_present ops k" by (simp add: Get_history[OF assms])
  have 1: "Len t = int (card {k. Get t k \<noteq> None})"
    using tsize_present_keys[OF inv] by (simp add: Len_def)
  have 2: "Len t = int (length (Walk t recordFn []))"
    using inv by (simp add: Len_def Walk_record tree_inv_def)
  have 3: "Len t' = Len t" if "Get t s \<noteq> None" "Insert t s v = Inr (old, t')" for s v old t'
  proof -
    have t': "tree_inv t'" using Insert_correct[OF inv that(2)] by simp
    have "{k. Get t' k \<noteq> None} = {k. Get t k \<noteq> None}"
      using Get_Insert[OF inv that(2)] that(1) by auto
    then show ?thesis using tsize_present_keys[OF t'] tsize_present_keys[OF inv]
      by (simp add: Len_def)
  qed
  have 4: "old = None \<and> Len t' = Len t" if "Get t s = None" "Delete t s = Inr (old, t')"
    for s old t'
    using Delete_correct[OF inv that(2)] that(1) by simp
  have 5: "cnt = 0 \<and> Len t' = Len t"
    if "\<forall>k. Get t k \<noteq> None \<longrightarrow> \<not> HasPrefix k p" "DeletePrefix t p = Inr (cnt, t')" for p cnt t'
  proof -
    have t': "tree_inv t'" using DeletePrefix_correct[OF inv that(2)] by simp
    have "{x \<in> set (entries (root t)). HasPrefix (fst x) p} = {}"
      using that(1) Get_entries[OF inv] by fastforce
    then have "cnt = 0" using DeletePrefix_correct[OF inv that(2)] by simp
    moreover have "{k. Get t' k \<noteq> None} = {k. Get t k \<noteq> None}"
      using Get_DeletePrefix[OF inv that(2)] that(1) by auto
    ultimately show ?thesis using tsize_present_keys[OF t'] tsize_present_keys[OF inv]
      by (simp add: Len_def)
  qed
  have rest: "(\<forall>s v old t'. Get t s \<noteq> None \<and> Insert t s v = Inr (old, t') \<longrightarrow> Len t' = Len t)
         \<and> (\<forall>s old t'. Get t s = None \<and> Delete t s = Inr (old, t')
                \<longrightarrow> old = None \<and> Len t' = Len t)
         \<and> (\<forall>p cnt t'. (\<forall>k. Get t k \<noteq> None \<longrightarrow> \<not> HasPrefix k p) \<and> DeletePrefix t p = Inr (cnt, t')
                \<longrightarrow> cnt = 0 \<and> Len t' = Len t)"
    using 3 4 5 by blast
  show ?thesis using h1 h2 1 2 rest by (intro conjI) simp_all
qed

theorem Len_counts_present_keys_witness:
  "run New [OpInsert ''a'' (1::nat), OpInsert ''b'' 2, OpInsert ''bc'' 3, OpInsert ''b'' 7,
            OpDelete ''bc'', OpDelete ''zz'', OpInsert ''ab'' 4, OpDeletePrefix ''a'',
            OpInsert ''c'' 9, OpDeletePrefix ''q'']
     = Inr \<lparr>root = Node None [] [(CHR ''a'', Node None ''a'' []),
                                  (CHR ''b'', Node (Some (LeafNode ''b'' 7)) ''b'' []),
                                  (CHR ''c'', Node (Some (LeafNode ''c'' 9)) ''c'' [])],
            tsize = 2\<rparr>
   \<and> dom (spec_present [OpInsert ''a'' (1::nat), OpInsert ''b'' 2, OpInsert ''bc'' 3, OpInsert ''b'' 7,
            OpDelete ''bc'', OpDelete ''zz'', OpInsert ''ab'' 4, OpDeletePrefix ''a'',
            OpInsert ''c'' 9, OpDeletePrefix ''q'']) = {''b'', ''c''}
   \<and> Len \<lparr>root = Node None [] [(CHR ''a'', Node None ''a'' []),
                                  (CHR ''b'', Node (Some (LeafNode ''b'' (7::nat))) ''b'' []),
                                  (CHR ''c'', Node (Some (LeafNode ''c'' 9)) ''c'' [])],
            tsize = 2\<rparr> = 2
   \<and> Len \<lparr>root = Node None [] [(CHR ''a'', Node None ''a'' []),
                                  (CHR ''b'', Node (Some (LeafNode ''b'' (7::nat))) ''b'' []),
                                  (CHR ''c'', Node (Some (LeafNode ''c'' 9)) ''c'' [])],
            tsize = 2\<rparr>
     = int (card (dom (spec_present [OpInsert ''a'' (1::nat), OpInsert ''b'' 2, OpInsert ''bc'' 3,
            OpInsert ''b'' 7, OpDelete ''bc'', OpDelete ''zz'', OpInsert ''ab'' 4,
            OpDeletePrefix ''a'', OpInsert ''c'' 9, OpDeletePrefix ''q''])))"
proof -
  let ?ops = "[OpInsert ''a'' (1::nat), OpInsert ''b'' 2, OpInsert ''bc'' 3, OpInsert ''b'' 7,
            OpDelete ''bc'', OpDelete ''zz'', OpInsert ''ab'' 4, OpDeletePrefix ''a'',
            OpInsert ''c'' 9, OpDeletePrefix ''q'']"
  let ?t = "\<lparr>root = Node None [] [(CHR ''a'', Node None ''a'' []),
                                  (CHR ''b'', Node (Some (LeafNode ''b'' (7::nat))) ''b'' []),
                                  (CHR ''c'', Node (Some (LeafNode ''c'' 9)) ''c'' [])],
            tsize = 2\<rparr>"
  have r: "run New ?ops = Inr ?t" by code_simp
  have d: "dom (spec_present ?ops) = {''b'', ''c''}"
    by (auto simp: spec_present_def HasPrefix_def dom_def split: if_splits)
  have l: "Len ?t = 2" by (simp add: Len_def)
  from Len_counts_present_keys[OF r] have h: "Len ?t = int (card (dom (spec_present ?ops)))"
    by (rule conjunct1)
  show ?thesis using r d l h by (intro conjI)
qed

text \<open>
  C10. On every tree reached from \<open>New()\<close>, a \<open>Delete\<close> of a key that \<open>Get\<close> does not
  find returns not found and the tree it leaves is the tree it was given: root,
  every node below it and the size field are equal, so every later query answers
  as before.
\<close>

theorem Delete_absent_unchanged:
  assumes "run New ops = Inr t" and "Get t k = None"
  shows "Delete t k = Inr (None, t)"
proof -
  have inv: "tree_inv t" by (rule reachable_inv[OF assms(1)])
  obtain old t' where d: "Delete t k = Inr (old, t')"
    using Delete_total[of t k] by (cases "Delete t k") auto
  from Delete_correct[OF inv d] assms(2) show ?thesis using d by simp
qed

theorem Delete_absent_unchanged_witness:
  "Get \<lparr>root = Node None [] [(CHR ''a'', Node None ''ab''
              [(CHR ''c'', Node (Some (LeafNode ''abc'' (1::nat))) ''c'' []),
               (CHR ''d'', Node (Some (LeafNode ''abd'' 2)) ''d'' [])])], tsize = 2\<rparr> ''ab'' = None
   \<and> Delete \<lparr>root = Node None [] [(CHR ''a'', Node None ''ab''
              [(CHR ''c'', Node (Some (LeafNode ''abc'' (1::nat))) ''c'' []),
               (CHR ''d'', Node (Some (LeafNode ''abd'' 2)) ''d'' [])])], tsize = 2\<rparr> ''ab''
     = Inr (None, \<lparr>root = Node None [] [(CHR ''a'', Node None ''ab''
              [(CHR ''c'', Node (Some (LeafNode ''abc'' (1::nat))) ''c'' []),
               (CHR ''d'', Node (Some (LeafNode ''abd'' 2)) ''d'' [])])], tsize = 2\<rparr>)"
proof -
  let ?t = "\<lparr>root = Node None [] [(CHR ''a'', Node None ''ab''
              [(CHR ''c'', Node (Some (LeafNode ''abc'' (1::nat))) ''c'' []),
               (CHR ''d'', Node (Some (LeafNode ''abd'' 2)) ''d'' [])])], tsize = 2\<rparr>"
  have r: "run New [OpInsert ''abc'' (1::nat), OpInsert ''abd'' 2] = Inr ?t" by code_simp
  have g: "Get ?t ''ab'' = None" by code_simp
  show ?thesis using g Delete_absent_unchanged[OF r g] by simp
qed

text \<open>
  C5. On every tree reached from \<open>New()\<close>, a \<open>WalkPrefix\<close> with prefix \<open>p\<close> whose
  callback never asks to stop calls it on the sequence the recording callback
  collects. That sequence is what a full \<open>Walk\<close> records, restricted to the keys
  that have \<open>p\<close> as a prefix and in the same order: its keys ascend strictly, and
  an entry is in it exactly if \<open>Get\<close> finds its key with its value and the key has
  the prefix \<open>p\<close>. When no present key has the prefix, the callback is not called.
\<close>

theorem WalkPrefix_visits_prefixed_keys:
  assumes "run New ops = Inr t" and "\<forall>st k v. \<not> fst (fn st k v)"
  shows "WalkPrefix t p fn st
           = fold (\<lambda>kv st. snd (fn st (fst kv) (snd kv))) (WalkPrefix t p recordFn []) st
         \<and> WalkPrefix t p recordFn [] = filter (\<lambda>kv. HasPrefix (fst kv) p) (Walk t recordFn [])
         \<and> sorted_wrt (<) (map fst (WalkPrefix t p recordFn []))
         \<and> (\<forall>k v. (k, v) \<in> set (WalkPrefix t p recordFn []) \<longleftrightarrow> Get t k = Some v \<and> HasPrefix k p)
         \<and> ((\<forall>k. Get t k \<noteq> None \<longrightarrow> \<not> HasPrefix k p) \<longrightarrow> WalkPrefix t p recordFn [] = [])"
proof -
  have inv: "tree_inv t" by (rule reachable_inv[OF assms(1)])
  let ?w = "WalkPrefix t p recordFn []"
  have 1: "WalkPrefix t p fn st = fold (\<lambda>kv st. snd (fn st (fst kv) (snd kv))) ?w st"
    unfolding WalkPrefix_def by (rule walkPrefix_node_never_stop[OF assms(2)])
  have 2: "?w = filter (\<lambda>kv. HasPrefix (fst kv) p) (Walk t recordFn [])"
    using WalkPrefix_record[OF inv] by (simp add: Walk_record)
  have "sorted_wrt (<) (map fst (entries (root t)))"
    using inv node_inv_sorted[of "[]" "root t"] by (simp add: tree_inv_def)
  then have "sorted_wrt (<) (filter (\<lambda>k. HasPrefix k p) (map fst (entries (root t))))"
    by (rule sorted_wrt_filter)
  then have 3: "sorted_wrt (<) (map fst ?w)"
    unfolding WalkPrefix_record[OF inv] by (simp add: filter_map comp_def)
  have 4: "(k, v) \<in> set ?w \<longleftrightarrow> Get t k = Some v \<and> HasPrefix k p" for k v
    unfolding WalkPrefix_record[OF inv] using Get_entries[OF inv, of k v] by auto
  have 5: "?w = []" if "\<forall>k. Get t k \<noteq> None \<longrightarrow> \<not> HasPrefix k p"
  proof -
    have "\<not> HasPrefix (fst x) p" if "x \<in> set (entries (root t))" for x
      using that Get_entries[OF inv, of "fst x" "snd x"] \<open>\<forall>k. Get t k \<noteq> None \<longrightarrow> \<not> HasPrefix k p\<close>
      by auto
    then show ?thesis unfolding WalkPrefix_record[OF inv] by (simp add: filter_empty_conv)
  qed
  show ?thesis using 1 2 3 4 5 by blast
qed

theorem WalkPrefix_visits_prefixed_keys_witness:
  "WalkPrefix \<lparr>root = Node None [] [(CHR ''b'', Node (Some (LeafNode ''bar'' (2::nat))) ''bar'' []),
                                     (CHR ''f'', Node (Some (LeafNode ''foo'' 1)) ''foo'' [])],
               tsize = 2\<rparr> ''fo'' countFn 0 = 1
   \<and> WalkPrefix \<lparr>root = Node None [] [(CHR ''b'', Node (Some (LeafNode ''bar'' (2::nat))) ''bar'' []),
                                     (CHR ''f'', Node (Some (LeafNode ''foo'' 1)) ''foo'' [])],
               tsize = 2\<rparr> ''fo'' recordFn [] = [(''foo'', 1)]"
proof -
  let ?t = "\<lparr>root = Node None [] [(CHR ''b'', Node (Some (LeafNode ''bar'' (2::nat))) ''bar'' []),
                                     (CHR ''f'', Node (Some (LeafNode ''foo'' 1)) ''foo'' [])],
               tsize = 2\<rparr>"
  have r: "run New [OpInsert ''foo'' (1::nat), OpInsert ''bar'' 2] = Inr ?t" by code_simp
  have f: "\<forall>st k v. \<not> fst ((countFn :: (nat, nat) WalkFn) st k v)" by (simp add: countFn_def)
  have w: "WalkPrefix ?t ''fo'' recordFn [] = [(''foo'', 1)]" by code_simp
  from WalkPrefix_visits_prefixed_keys[OF r f, of "''fo''" 0]
  have "WalkPrefix ?t ''fo'' countFn 0
        = fold (\<lambda>kv st. snd (countFn st (fst kv) (snd kv))) (WalkPrefix ?t ''fo'' recordFn []) 0"
    by blast
  then show ?thesis unfolding w by (simp add: countFn_def)
qed

text \<open>
  C6. On every tree reached from \<open>New()\<close>, \<open>LongestPrefix(k)\<close> returns a present key
  that is a prefix of \<open>k\<close>, with the value \<open>Get\<close> finds for it, and no present key
  that is a prefix of \<open>k\<close> is longer; it reports not found exactly when no present
  key is a prefix of \<open>k\<close>.
\<close>

theorem LongestPrefix_longest_present_prefix:
  assumes "run New ops = Inr t"
  shows "case LongestPrefix t k of
           None \<Rightarrow> (\<forall>m v. Get t m = Some v \<longrightarrow> \<not> HasPrefix k m)
         | Some (m, v) \<Rightarrow> Get t m = Some v \<and> HasPrefix k m
              \<and> (\<forall>m' v'. Get t m' = Some v' \<and> HasPrefix k m' \<longrightarrow> length m' \<le> length m)"
  by (rule LongestPrefix_correct[OF reachable_inv[OF assms]])

theorem LongestPrefix_longest_present_prefix_witness:
  "LongestPrefix \<lparr>root = Node None [] [(CHR ''f'', Node (Some (LeafNode ''foo'' (1::nat))) ''foo''
                     [(CHR ''b'', Node (Some (LeafNode ''foobar'' 2)) ''bar'' []),
                      (CHR ''z'', Node (Some (LeafNode ''foozoo'' 3)) ''zoo'' [])])],
                  tsize = 3\<rparr> ''foobarbaz'' = Some (''foobar'', 2)
   \<and> Get \<lparr>root = Node None [] [(CHR ''f'', Node (Some (LeafNode ''foo'' (1::nat))) ''foo''
                     [(CHR ''b'', Node (Some (LeafNode ''foobar'' 2)) ''bar'' []),
                      (CHR ''z'', Node (Some (LeafNode ''foozoo'' 3)) ''zoo'' [])])],
                  tsize = 3\<rparr> ''foobar'' = Some 2
   \<and> HasPrefix ''foobarbaz'' ''foobar''"
proof -
  let ?t = "\<lparr>root = Node None [] [(CHR ''f'', Node (Some (LeafNode ''foo'' (1::nat))) ''foo''
                     [(CHR ''b'', Node (Some (LeafNode ''foobar'' 2)) ''bar'' []),
                      (CHR ''z'', Node (Some (LeafNode ''foozoo'' 3)) ''zoo'' [])])],
                  tsize = 3\<rparr>"
  have r: "run New [OpInsert ''foo'' (1::nat), OpInsert ''foobar'' 2, OpInsert ''foozoo'' 3] = Inr ?t"
    by code_simp
  have l: "LongestPrefix ?t ''foobarbaz'' = Some (''foobar'', 2)" by code_simp
  from LongestPrefix_longest_present_prefix[OF r, of "''foobarbaz''"] l
  show ?thesis by simp
qed

text \<open>
  C2. \<open>DeletePrefix\<close> and the shape of the tree it leaves. On the tree holding
  \<open>"ab"\<close> and \<open>"ac"\<close>, \<open>DeletePrefix("ab")\<close> empties the node of \<open>"ab"\<close> and leaves its
  edge in the parent: the node with prefix \<open>"a"\<close> keeps two edges, has no leaf, and
  the only key under it is \<open>"ac"\<close>. \<open>Delete("ab")\<close> on the same tree removes the edge
  and merges that node with its remaining child into one node with prefix
  \<open>"ac"\<close>. A later \<open>Insert("ab")\<close> into an emptied node of prefix \<open>"a"\<close> gives a node
  other than the root with exactly one edge and no leaf, and a \<open>DeletePrefix\<close> that
  matches nothing returns with that node in place.
\<close>

theorem DeletePrefix_leaves_emptied_node:
  "run New [OpInsert ''ab'' 1, OpInsert ''ac'' 2, OpDeletePrefix ''ab'']
     = Inr \<lparr>root = Node None []
                     [(CHR ''a'', Node None ''a''
                         [(CHR ''b'', Node None ''b'' []),
                          (CHR ''c'', Node (Some (LeafNode ''ac'' (2::nat))) ''c'' [])])],
            tsize = 1\<rparr>
   \<and> run New [OpInsert ''ab'' 1, OpInsert ''ac'' 2, OpDelete ''ab'']
     = Inr \<lparr>root = Node None []
                     [(CHR ''a'', Node (Some (LeafNode ''ac'' (2::nat))) ''ac'' [])],
            tsize = 1\<rparr>
   \<and> run New [OpInsert ''a'' 1, OpInsert ''b'' 2, OpDeletePrefix ''a'', OpInsert ''ab'' 3,
               OpDeletePrefix ''zz'']
     = Inr \<lparr>root = Node None []
                     [(CHR ''a'', Node None ''a''
                         [(CHR ''b'', Node (Some (LeafNode ''ab'' (3::nat))) ''b'' [])]),
                      (CHR ''b'', Node (Some (LeafNode ''b'' 2)) ''b'' [])],
            tsize = 2\<rparr>"
  by code_simp

text \<open>
  C7. \<open>Insert\<close> followed by \<open>Delete\<close> of the same key, on a tree that \<open>DeletePrefix\<close>
  left with an emptied node. After \<open>Insert("a", 1)\<close>, \<open>Insert("b", 2)\<close>,
  \<open>DeletePrefix("a")\<close> the key \<open>"a"\<close> is absent and \<open>Minimum\<close> reports nothing found.
  \<open>Insert("a", 5)\<close> fills the emptied node, \<open>Delete("a")\<close> returns the value 5 and
  removes the node with its edge, and \<open>Minimum\<close> now returns the key \<open>"b"\<close>.
\<close>

theorem Insert_Delete_changes_Minimum:
  "run New [OpInsert ''a'' 1, OpInsert ''b'' 2, OpDeletePrefix ''a'']
     = Inr \<lparr>root = Node None [] [(CHR ''a'', Node None ''a'' []),
                                 (CHR ''b'', Node (Some (LeafNode ''b'' (2::nat))) ''b'' [])],
            tsize = 1\<rparr>
   \<and> Get \<lparr>root = Node None [] [(CHR ''a'', Node None ''a'' []),
                                 (CHR ''b'', Node (Some (LeafNode ''b'' (2::nat))) ''b'' [])],
            tsize = 1\<rparr> ''a'' = None
   \<and> Minimum \<lparr>root = Node None [] [(CHR ''a'', Node None ''a'' []),
                                 (CHR ''b'', Node (Some (LeafNode ''b'' (2::nat))) ''b'' [])],
            tsize = 1\<rparr> = None
   \<and> Insert \<lparr>root = Node None [] [(CHR ''a'', Node None ''a'' []),
                                 (CHR ''b'', Node (Some (LeafNode ''b'' (2::nat))) ''b'' [])],
            tsize = 1\<rparr> ''a'' 5
     = Inr (None, \<lparr>root = Node None [] [(CHR ''a'', Node (Some (LeafNode ''a'' 5)) ''a'' []),
                                 (CHR ''b'', Node (Some (LeafNode ''b'' (2::nat))) ''b'' [])],
            tsize = 2\<rparr>)
   \<and> Delete \<lparr>root = Node None [] [(CHR ''a'', Node (Some (LeafNode ''a'' 5)) ''a'' []),
                                 (CHR ''b'', Node (Some (LeafNode ''b'' (2::nat))) ''b'' [])],
            tsize = 2\<rparr> ''a''
     = Inr (Some 5, \<lparr>root = Node None [] [(CHR ''b'', Node (Some (LeafNode ''b'' (2::nat))) ''b'' [])],
            tsize = 1\<rparr>)
   \<and> Minimum \<lparr>root = Node None [] [(CHR ''b'', Node (Some (LeafNode ''b'' (2::nat))) ''b'' [])],
            tsize = 1\<rparr> = Some (''b'', 2)"
  by code_simp

end
